theory Spec2Isabelle
  imports Main "HOL-Library.Word" "HOL-Library.Signed_Division"
begin

unbundle bit_operations_syntax

section \<open>The countdown timer sketch (CountDownTimerESP32.ino)\<close>

text \<open>
  The sketch runs on an ESP32: \<open>int\<close>, \<open>long\<close> and \<open>unsigned long\<close> are 32 bits wide.
  Unsigned values are 32-bit words, whose arithmetic wraps; a \<open>long\<close> is a 32-bit word
  read in two's complement (\<open>sint\<close>), and the conversion between the two keeps the bits.
  Signed arithmetic that leaves the range wraps as well, as the compiled code does.
\<close>

type_synonym u8 = "8 word"
type_synonym u32 = "32 word"

subsection \<open>Constants and globals\<close>

definition NUM_LEDS_PER_DIGIT :: nat where
  "NUM_LEDS_PER_DIGIT = 30"

definition NUM_LEDS :: nat where
  "NUM_LEDS = 120"

text \<open>
  The table \<open>digits[10]\<close>. The source writes the masks in binary; here they are in
  hexadecimal, most significant bit first as well:
  \<^verbatim>\<open>0b00011111111111101111111111110000\<close> is \<^verbatim>\<open>0x1FFEFFF0\<close>, and so on.
\<close>

definition digits :: "u32 list" where
  "digits =
    [0x1FFEFFF0,
     0x1E0000F0,
     0x01FE0FFF,
     0x1FE00FFF,
     0x1E00F0FF,
     0x1FE0FF0F,
     0x1FFEFF0F,
     0x1E000FF0,
     0x1FFEFFFF,
     0x1FE0FFFF]"

datatype State = Inactive | Active

datatype Mode = CountUp | CountDown

text \<open>
  FastLED's \<open>CHSV\<close>: hue, saturation and value, one byte each. The strip \<open>leds\<close> is an
  array of \<open>CRGB\<close>; assigning a \<open>CHSV\<close> to a cell stores FastLED's conversion of it.
  The model keeps, for each cell, the \<open>CHSV\<close> value that was assigned to it.
\<close>

record CHSV =
  hue :: u8
  sat :: u8
  val :: u8

text \<open>What the sketch prints on the debugging console.\<close>

datatype serial_out = Println string | PrintlnLong int | WriteByte char

text \<open>
  C++ leaves an array access out of range and a division by zero undefined; the model
  returns an error there.
\<close>

datatype error = DivideByZero | DigitIndexOutOfRange | LedIndexOutOfRange

text \<open>
  The globals of the sketch, the static local \<open>timeValue\<close> of \<open>loop\<close>, the bytes waiting
  in the Bluetooth receive queue (\<open>rx\<close>) and the console output so far (\<open>serial\<close>).
\<close>

record timer =
  rx :: string
  message :: string
  startTime :: u32
  timerDuration :: u32
  cumulativeElapsedTime :: u32
  state :: State
  mode :: Mode
  timeValue :: u32
  leds :: "CHSV list"
  serial :: "serial_out list"

text \<open>
  What one pass of \<open>loop\<close> reads from outside: the bytes the Bluetooth link delivered
  since the last pass, \<open>pressed()\<close> of the three buttons after their \<open>update()\<close>, the
  clock \<open>millis()\<close> as read by \<open>loop\<close> (\<open>currentTime\<close>) and as read a little later inside
  \<open>Start\<close> or \<open>Stop\<close> (\<open>callTime\<close>), and the value of \<open>beatsin8(20, 0, 40)\<close>.
\<close>

record tick =
  arriving :: string
  btnStart :: bool
  btnLeft :: bool
  btnRight :: bool
  currentTime :: u32
  callTime :: u32
  beat :: u8

subsection \<open>Library functions the sketch calls\<close>

text \<open>Arduino's \<open>bitRead(value, bit)\<close> is \<open>((value) >> (bit)) & 0x01\<close>.\<close>

definition bitRead :: "u32 \<Rightarrow> nat \<Rightarrow> u32" where
  "bitRead w b = drop_bit b w AND 1"

text \<open>
  Arduino's \<open>map\<close> on \<open>long\<close>:
  \<open>(x - in_min) * (out_max - out_min) / (in_max - in_min) + out_min\<close>,
  with C's division, which truncates towards zero. A zero divisor is an error.
\<close>

definition map_long :: "u32 \<Rightarrow> u32 \<Rightarrow> u32 \<Rightarrow> u32 \<Rightarrow> u32 \<Rightarrow> error + u32" where
  "map_long x in_min in_max out_min out_max =
     (if in_max - in_min = 0 then Inl DivideByZero
      else Inr (word_of_int (sint ((x - in_min) * (out_max - out_min)) sdiv sint (in_max - in_min))
                + out_min))"

text \<open>
  \<open>String::toInt\<close> is C's \<open>atol\<close>: white space is skipped, then an optional sign and the
  decimal digits that follow are read; anything else ends the number, and no digits give
  0. A value outside \<open>long\<close> is clamped, as \<open>strtol\<close> does.
\<close>

definition isspace :: "char \<Rightarrow> bool" where
  "isspace c = (c \<in> set [CHR 0x20, CHR 0x09, CHR 0x0A, CHR 0x0B, CHR 0x0C, CHR 0x0D])"

definition isdigit :: "char \<Rightarrow> bool" where
  "isdigit c = (48 \<le> (of_char c :: nat) \<and> (of_char c :: nat) \<le> 57)"

fun atol_digits :: "int \<Rightarrow> string \<Rightarrow> int" where
  "atol_digits acc [] = acc"
| "atol_digits acc (c # cs) =
     (if isdigit c then atol_digits (10 * acc + (of_char c - 48)) cs else acc)"

definition clamp_long :: "int \<Rightarrow> int" where
  "clamp_long k = max (- 2147483648) (min 2147483647 k)"

definition atol :: "string \<Rightarrow> int" where
  "atol str =
     (case dropWhile isspace str of
        [] \<Rightarrow> 0
      | c # cs \<Rightarrow>
          if c = CHR ''-'' then clamp_long (- atol_digits 0 cs)
          else if c = CHR ''+'' then clamp_long (atol_digits 0 cs)
          else clamp_long (atol_digits 0 (c # cs)))"

definition toInt :: "string \<Rightarrow> u32" where
  "toInt str = word_of_int (atol str)"

subsection \<open>setDigit\<close>

text \<open>
  The \<open>for\<close> loop of \<open>setDigit\<close>, from cell \<open>i\<close> on. Each pass overwrites \<open>colour.v\<close> and
  copies the colour into cell \<open>display * NUM_LEDS_PER_DIGIT + i\<close>.
\<close>

function setDigit_loop :: "nat \<Rightarrow> int \<Rightarrow> int \<Rightarrow> CHSV \<Rightarrow> CHSV list \<Rightarrow> error + CHSV list" where
  "setDigit_loop i display n colour ls =
     (if i < NUM_LEDS_PER_DIGIT then
        (if n < 0 \<or> 10 \<le> n then Inl DigitIndexOutOfRange
         else
           let colour' = colour\<lparr>val := ucast (bitRead (digits ! nat n) i * 255)\<rparr>;
               idx = display * int NUM_LEDS_PER_DIGIT + int i
           in if idx < 0 \<or> int NUM_LEDS \<le> idx then Inl LedIndexOutOfRange
              else setDigit_loop (i + 1) display n colour' (ls[nat idx := colour']))
      else Inr ls)"
  by pat_completeness auto
termination
  by (relation "measure (\<lambda>(i, display, n, colour, ls). NUM_LEDS_PER_DIGIT - i)") auto

definition setDigit :: "int \<Rightarrow> int \<Rightarrow> CHSV \<Rightarrow> CHSV list \<Rightarrow> error + CHSV list" where
  "setDigit display n colour ls = setDigit_loop 0 display n colour ls"

subsection \<open>Start, Stop, Reset\<close>

definition Start :: "u32 \<Rightarrow> timer \<Rightarrow> timer" where
  "Start now s =
     s\<lparr>serial := serial s @ [Println ''Timer activated!''],
       state := Active,
       startTime := now\<rparr>"

definition Stop :: "u32 \<Rightarrow> timer \<Rightarrow> timer" where
  "Stop now s =
     s\<lparr>serial := serial s @ [Println ''Timer stopped''],
       cumulativeElapsedTime := cumulativeElapsedTime s + (now - startTime s),
       state := Inactive\<rparr>"

definition Reset :: "timer \<Rightarrow> timer" where
  "Reset s =
     s\<lparr>serial := serial s @ [Println ''Timer reset''],
       cumulativeElapsedTime := 0,
       state := Inactive\<rparr>"

text \<open>
  The state that \<open>setup()\<close> leaves: the globals as initialised, with
  \<open>state = Inactive\<close>; the strip is dark.
\<close>

definition setup_timer :: timer where
  "setup_timer =
     \<lparr>rx = [], message = [], startTime = 0, timerDuration = 0, cumulativeElapsedTime = 0,
      state = Inactive, mode = CountUp, timeValue = 0,
      leds = replicate NUM_LEDS \<lparr>hue = 0, sat = 0, val = 0\<rparr>,
      serial = []\<rparr>"

subsection \<open>loop\<close>

text \<open>
  Lines 163 to 172: when a byte is waiting, it is read; any byte but the newline is
  appended to \<open>message\<close>, the newline empties \<open>message\<close>; the byte is echoed.
  \<open>String(incomingChar)\<close> of the NUL byte is the empty string.
\<close>

definition receive :: "tick \<Rightarrow> timer \<Rightarrow> timer" where
  "receive inp s =
     (case rx s @ arriving inp of
        [] \<Rightarrow> s\<lparr>rx := []\<rparr>
      | c # cs \<Rightarrow>
          s\<lparr>rx := cs,
            message := (if c \<noteq> CHR 0x0A
                        then message s @ (if c = CHR 0x00 then [] else [c])
                        else []),
            serial := serial s @ [WriteByte c]\<rparr>)"

definition toggle :: "tick \<Rightarrow> timer \<Rightarrow> bool" where
  "toggle inp s = (btnStart inp \<or> message s = ''s'')"

text \<open>
  Lines 183 to 212, the branch for \<open>state == Active\<close>. The result is the new state and
  \<open>timeHue\<close>.
\<close>

definition active_branch :: "tick \<Rightarrow> timer \<Rightarrow> error + (timer \<times> u32)" where
  "active_branch inp s =
     (case mode s of
        CountDown \<Rightarrow>
          (let s1 = s\<lparr>timeValue :=
                       timerDuration s - (currentTime inp - startTime s)
                         - cumulativeElapsedTime s\<rparr>
           in case map_long (timeValue s1) 0 (timerDuration s1) 0 100 of
                Inl e \<Rightarrow> Inl e
              | Inr timeHue \<Rightarrow>
                  (let s2 = (if sint (timeValue s1) \<le> 0
                             then s1\<lparr>timeValue := 0, state := Inactive\<rparr>
                             else s1)
                   in Inr (if toggle inp s2 then Stop (callTime inp) s2 else s2, timeHue)))
      | CountUp \<Rightarrow>
          (let s1 = s\<lparr>timeValue :=
                       (currentTime inp - startTime s) + cumulativeElapsedTime s\<rparr>
           in Inr (if toggle inp s1 then Stop (callTime inp) s1 else s1, 0)))"

text \<open>
  Lines 214 to 246, the branch for \<open>state == Inactive\<close>, in four steps. Lines 220
  to 222: the duration is set from the message buffer, shown, and the timer reset.
\<close>

definition duration_from_message :: "timer \<Rightarrow> timer" where
  "duration_from_message s =
     (let s1 = s\<lparr>timerDuration := 60000 * toInt (message s)\<rparr>;
          s2 = s1\<lparr>timeValue := timerDuration s1\<rparr>
      in Reset s2)"

text \<open>Lines 226 to 228, the body of \<open>if(btnLeft.pressed())\<close>.\<close>

definition subtract_minute :: "timer \<Rightarrow> timer" where
  "subtract_minute s =
     (let a = (if 60000 \<le> timerDuration s
               then s\<lparr>timerDuration := timerDuration s - 60000\<rparr>
               else s);
          b = a\<lparr>timeValue := timerDuration a\<rparr>;
          c = b\<lparr>serial := serial b @ [PrintlnLong (sint (timeValue b))]\<rparr>
      in Reset c)"

text \<open>Lines 232 to 234, the body of \<open>if(btnRight.pressed())\<close>.\<close>

definition add_minute :: "timer \<Rightarrow> timer" where
  "add_minute s =
     (let a = s\<lparr>timerDuration := timerDuration s + 60000\<rparr>;
          b = a\<lparr>timeValue := timerDuration a\<rparr>;
          c = b\<lparr>serial := serial b @ [PrintlnLong (sint (timeValue b))]\<rparr>
      in Reset c)"

text \<open>Lines 240 to 244, the body of \<open>if(btnStart.pressed()||message == "s")\<close>.\<close>

definition choose_mode_and_start :: "tick \<Rightarrow> timer \<Rightarrow> timer" where
  "choose_mode_and_start inp s =
     Start (callTime inp)
       (if timerDuration s = 0 then s\<lparr>mode := CountUp\<rparr> else s\<lparr>mode := CountDown\<rparr>)"

definition inactive_branch :: "tick \<Rightarrow> timer \<Rightarrow> timer \<times> u32" where
  "inactive_branch inp s =
     (let timeHue = ucast (beat inp);
          s3 = duration_from_message s;
          s4 = (if btnLeft inp then subtract_minute s3 else s3);
          s5 = (if btnRight inp then add_minute s4 else s4);
          s6 = (if toggle inp s5 then choose_mode_and_start inp s5 else s5)
      in (s6, timeHue))"

text \<open>
  Lines 249 to 260 (\<open>DISPLAY_MMSS\<close> is defined): the four calls of \<open>setDigit\<close>, as pairs
  of slot and digit value. C's \<open>/\<close> and \<open>%\<close> truncate towards zero.
\<close>

definition seconds_of :: "u32 \<Rightarrow> int" where
  "seconds_of tv = (sint tv sdiv 1000) smod 60"

definition minutes_of :: "u32 \<Rightarrow> int" where
  "minutes_of tv = sint tv sdiv 60000"

definition render_calls :: "u32 \<Rightarrow> (int \<times> int) list" where
  "render_calls tv =
     [(3, seconds_of tv smod 10),
      (2, (seconds_of tv sdiv 10) smod 10),
      (1, minutes_of tv smod 10),
      (0, (minutes_of tv sdiv 10) smod 10)]"

fun render_loop :: "(int \<times> int) list \<Rightarrow> CHSV \<Rightarrow> CHSV list \<Rightarrow> error + CHSV list" where
  "render_loop [] colour ls = Inr ls"
| "render_loop ((display, n) # calls) colour ls =
     (case setDigit display n colour ls of
        Inl e \<Rightarrow> Inl e
      | Inr ls' \<Rightarrow> render_loop calls colour ls')"

definition render :: "u32 \<Rightarrow> timer \<Rightarrow> error + timer" where
  "render timeHue s =
     (case render_loop (render_calls (timeValue s))
             \<lparr>hue = ucast timeHue, sat = 255, val = 255\<rparr> (leds s) of
        Inl e \<Rightarrow> Inl e
      | Inr ls \<Rightarrow> Inr (s\<lparr>leds := ls\<rparr>))"

text \<open>One pass of \<open>loop\<close>: receive, then the branch of the current state, then render.\<close>

definition loop :: "tick \<Rightarrow> timer \<Rightarrow> error + timer" where
  "loop inp s =
     (let s0 = receive inp s
      in case state s0 of
           Active \<Rightarrow>
             (case active_branch inp s0 of
                Inl e \<Rightarrow> Inl e
              | Inr (s', timeHue) \<Rightarrow> render timeHue s')
         | Inactive \<Rightarrow>
             (case inactive_branch inp s0 of (s', timeHue) \<Rightarrow> render timeHue s'))"

text \<open>Several passes in a row, stopping at the first error.\<close>

fun run :: "tick list \<Rightarrow> timer \<Rightarrow> error + timer" where
  "run [] s = Inr s"
| "run (inp # inps) s = (case loop inp s of Inl e \<Rightarrow> Inl e | Inr s' \<Rightarrow> run inps s')"

text \<open>The states the sketch can be in at the start of a pass.\<close>

inductive reachable :: "timer \<Rightarrow> bool" where
  reachable_setup: "reachable setup_timer"
| reachable_loop: "reachable s \<Longrightarrow> loop inp s = Inr s' \<Longrightarrow> reachable s'"

subsection \<open>Inputs and predicates of the statements\<close>

text \<open>A pass at clock reading \<open>t\<close> at which nothing arrives and no button is pressed.\<close>

definition no_input :: "u32 \<Rightarrow> tick" where
  "no_input t =
     \<lparr>arriving = [], btnStart = False, btnLeft = False, btnRight = False,
      currentTime = t, callTime = t, beat = 0\<rparr>"

text \<open>The console lines that \<open>Start\<close> and \<open>Stop\<close> print.\<close>

definition is_start_stop :: "serial_out \<Rightarrow> bool" where
  "is_start_stop l = (l = Println ''Timer activated!'' \<or> l = Println ''Timer stopped'')"

text \<open>Duration is a multiple of one minute.\<close>

definition whole_minutes :: "timer \<Rightarrow> bool" where
  "whole_minutes s = (uint (timerDuration s) mod 60000 = 0)"

text \<open>
  The globals after the first two parts of a pass, receive and the branch of the current
  state, before the strip is rendered; \<open>loop\<close> is this followed by \<open>render\<close>.
\<close>

definition advance :: "tick \<Rightarrow> timer \<Rightarrow> error + (timer \<times> u32)" where
  "advance inp s =
     (let s0 = receive inp s
      in case state s0 of
           Active \<Rightarrow> active_branch inp s0
         | Inactive \<Rightarrow> Inr (inactive_branch inp s0))"

text \<open>
  The states reached by passes where, whenever the pass starts Inactive, the message
  buffer after the byte of that pass parses to a number of minutes from 0 to 71581.
  A pass counts whatever the strip holds after it: the globals are those that receive
  and the branch leave, also when the rendering reads \<open>digits[]\<close> out of range.
\<close>

definition minutes_in_range :: "tick \<Rightarrow> timer \<Rightarrow> bool" where
  "minutes_in_range inp s =
     (state s = Active \<or>
      (0 \<le> atol (message (receive inp s)) \<and> atol (message (receive inp s)) \<le> 71581))"

inductive reachable_in_range :: "timer \<Rightarrow> bool" where
  in_range_setup: "reachable_in_range setup_timer"
| in_range_pass:
    "reachable_in_range s \<Longrightarrow> minutes_in_range inp s \<Longrightarrow> advance inp s = Inr (e, timeHue)
     \<Longrightarrow> reachable_in_range (e\<lparr>leds := ls\<rparr>)"

text \<open>Several such passes in a row, leaving the strip as it is.\<close>

fun run_in_range :: "tick list \<Rightarrow> timer \<Rightarrow> timer option" where
  "run_in_range [] s = Some s"
| "run_in_range (inp # inps) s =
     (if minutes_in_range inp s
      then (case advance inp s of Inl e \<Rightarrow> None | Inr (s', timeHue) \<Rightarrow> run_in_range inps s')
      else None)"

text \<open>
  \<open>active_passes s s'\<close>: the state \<open>s'\<close> is reached from \<open>s\<close> by passes that each begin
  Active, so that \<open>s'\<close> is still in the session of \<open>s\<close> or has just left it.
\<close>

inductive active_passes :: "timer \<Rightarrow> timer \<Rightarrow> bool" where
  active_passes_none: "active_passes s s"
| active_passes_more:
    "active_passes s s1 \<Longrightarrow> state s1 = Active \<Longrightarrow> loop inp s1 = Inr s2
     \<Longrightarrow> active_passes s s2"

text \<open>
  A countdown that has just started: the byte \<open>1\<close> arrives and the start button is
  pressed in the first pass after \<open>setup()\<close>, at clock reading 0.
\<close>

definition one_minute_countdown :: "error + timer" where
  "one_minute_countdown =
     run [(no_input 0)\<lparr>arriving := ''1'', btnStart := True\<rparr>] setup_timer"

section \<open>The digit encoder\<close>

declare setDigit_loop.simps [simp del]

lemma cell_value: "(ucast (bitRead w i * 255) :: u8) = (if bit w i then 255 else 0)"
  by (simp add: bitRead_def and_one_eq mod_2_eq_odd bit_iff_odd_drop_bit)

lemma setDigit_loop_cells:
  assumes "0 \<le> d" "d \<le> 3" "0 \<le> n" "n \<le> 9" "length ls = NUM_LEDS"
  shows "i \<le> NUM_LEDS_PER_DIGIT \<Longrightarrow>
         \<exists>ls'. setDigit_loop i d n c ls = Inr ls' \<and> length ls' = NUM_LEDS \<and>
           (\<forall>j. i \<le> j \<longrightarrow> j < NUM_LEDS_PER_DIGIT \<longrightarrow>
              ls' ! (nat d * NUM_LEDS_PER_DIGIT + j) = c\<lparr>val := if bit (digits ! nat n) j then 255 else 0\<rparr>) \<and>
           (\<forall>k < NUM_LEDS. k < nat d * NUM_LEDS_PER_DIGIT + i \<or> nat d * NUM_LEDS_PER_DIGIT + NUM_LEDS_PER_DIGIT \<le> k \<longrightarrow> ls' ! k = ls ! k)"
  using assms(5)
proof (induction "NUM_LEDS_PER_DIGIT - i" arbitrary: i c ls)
  case 0
  then have "i = NUM_LEDS_PER_DIGIT" by simp
  then show ?case using 0 by (simp add: setDigit_loop.simps [of NUM_LEDS_PER_DIGIT])
next
  case (Suc m)
  then have lt: "i < NUM_LEDS_PER_DIGIT" by simp
  let ?c = "c\<lparr>val := if bit (digits ! nat n) i then 255 else 0\<rparr>"
  let ?idx = "nat d * NUM_LEDS_PER_DIGIT + i"
  have idx: "d * int NUM_LEDS_PER_DIGIT + int i = int ?idx" using assms(1) by simp
  have inr: "?idx < NUM_LEDS" using lt assms(1,2) by (simp add: NUM_LEDS_def NUM_LEDS_PER_DIGIT_def)
  have step: "setDigit_loop i d n c ls = setDigit_loop (i + 1) d n ?c (ls[?idx := ?c])"
    using lt assms(3,4) inr
    by (subst setDigit_loop.simps) (simp add: idx cell_value Let_def del: of_nat_add of_nat_mult)
  have "m = NUM_LEDS_PER_DIGIT - (i + 1)" using Suc.hyps(2) by simp
  moreover have "i + 1 \<le> NUM_LEDS_PER_DIGIT" using lt by simp
  moreover have "length (ls[?idx := ?c]) = NUM_LEDS" using Suc.prems by simp
  ultimately obtain ls' where r: "setDigit_loop (i + 1) d n ?c (ls[?idx := ?c]) = Inr ls'"
      "length ls' = NUM_LEDS"
      "\<forall>j. i + 1 \<le> j \<longrightarrow> j < NUM_LEDS_PER_DIGIT \<longrightarrow>
              ls' ! (nat d * NUM_LEDS_PER_DIGIT + j) = ?c\<lparr>val := if bit (digits ! nat n) j then 255 else 0\<rparr>"
      "\<forall>k < NUM_LEDS. k < nat d * NUM_LEDS_PER_DIGIT + (i + 1) \<or> nat d * NUM_LEDS_PER_DIGIT + NUM_LEDS_PER_DIGIT \<le> k \<longrightarrow> ls' ! k = (ls[?idx := ?c]) ! k"
    using Suc.hyps(1) [of "i + 1" "ls[?idx := ?c]" ?c] by blast
  have here: "ls' ! ?idx = ?c"
    using r(4) inr Suc.prems by simp
  have cells: "ls' ! (nat d * NUM_LEDS_PER_DIGIT + j) = c\<lparr>val := if bit (digits ! nat n) j then 255 else 0\<rparr>"
    if "i \<le> j" "j < NUM_LEDS_PER_DIGIT" for j
  proof (cases "j = i")
    case True
    then show ?thesis using here by simp
  next
    case False
    then have "i + 1 \<le> j" using that by simp
    then show ?thesis using r(3) that by simp
  qed
  have rest: "ls' ! k = ls ! k"
    if "k < NUM_LEDS" "k < nat d * NUM_LEDS_PER_DIGIT + i \<or> nat d * NUM_LEDS_PER_DIGIT + NUM_LEDS_PER_DIGIT \<le> k" for k
  proof -
    have "k \<noteq> ?idx" using that lt by auto
    moreover have "ls' ! k = (ls[?idx := ?c]) ! k" using r(4) that by auto
    ultimately show ?thesis by simp
  qed
  show ?case using step r(1,2) cells rest by simp
qed

lemma setDigit_loop_length:
  "setDigit_loop i d n c ls = Inr ls' \<Longrightarrow> length ls' = length ls"
proof (induction i d n c ls rule: setDigit_loop.induct)
  case (1 i display n colour ls)
  show ?case
  proof (cases "i < NUM_LEDS_PER_DIGIT")
    case False
    then show ?thesis using "1.prems" by (simp add: setDigit_loop.simps [of i])
  next
    case True
    let ?c = "colour\<lparr>val := ucast (bitRead (digits ! nat n) i * 255)\<rparr>"
    let ?idx = "display * int NUM_LEDS_PER_DIGIT + int i"
    have ok: "\<not> (n < 0 \<or> 10 \<le> n)" "\<not> (?idx < 0 \<or> int NUM_LEDS \<le> ?idx)"
      and next_call: "setDigit_loop (i + 1) display n ?c (ls[nat ?idx := ?c]) = Inr ls'"
      using "1.prems" True
      by (auto simp: setDigit_loop.simps [of i] Let_def split: if_splits)
    have "length ls' = length (ls[nat ?idx := ?c])"
      using "1.IH" [OF True ok(1) refl refl ok(2) next_call] .
    then show ?thesis by simp
  qed
qed

lemma setDigit_loop_no_led_error:
  assumes "0 \<le> d" "d \<le> 3"
  shows "setDigit_loop i d n c ls \<noteq> Inl LedIndexOutOfRange"
proof (induction "NUM_LEDS_PER_DIGIT - i" arbitrary: i c ls)
  case 0
  then show ?case by (simp add: setDigit_loop.simps [of i])
next
  case (Suc m)
  then have lt: "i < NUM_LEDS_PER_DIGIT" by simp
  have m: "m = NUM_LEDS_PER_DIGIT - (i + 1)" using Suc.hyps(2) by simp
  have lo: "0 \<le> d * int NUM_LEDS_PER_DIGIT + int i" using assms(1) by simp
  have hi: "d * int NUM_LEDS_PER_DIGIT + int i < int NUM_LEDS"
    using assms(2) lt by (simp add: NUM_LEDS_def NUM_LEDS_PER_DIGIT_def)
  show ?case
    using lt lo hi Suc.hyps(1) [OF m]
    by (subst setDigit_loop.simps) (simp add: Let_def del: of_nat_add of_nat_mult)
qed

lemma setDigit_loop_Inr:
  assumes "0 \<le> d" "d \<le> 3" "0 \<le> n" "n \<le> 9"
  shows "\<exists>ls'. setDigit_loop i d n c ls = Inr ls'"
proof (induction "NUM_LEDS_PER_DIGIT - i" arbitrary: i c ls)
  case 0
  then show ?case by (simp add: setDigit_loop.simps [of i])
next
  case (Suc m)
  then have lt: "i < NUM_LEDS_PER_DIGIT" by simp
  have m: "m = NUM_LEDS_PER_DIGIT - (i + 1)" using Suc.hyps(2) by simp
  have lo: "0 \<le> d * int NUM_LEDS_PER_DIGIT + int i" using assms(1) by simp
  have hi: "d * int NUM_LEDS_PER_DIGIT + int i < int NUM_LEDS"
    using assms(2) lt by (simp add: NUM_LEDS_def NUM_LEDS_PER_DIGIT_def)
  show ?case
    using lt lo hi assms(3,4) Suc.hyps(1) [OF m]
    by (subst setDigit_loop.simps) (simp add: Let_def del: of_nat_add of_nat_mult)
qed

lemma sdiv_nonneg: "0 \<le> a \<Longrightarrow> 0 < b \<Longrightarrow> (a::int) sdiv b = a div b"
  by (cases "a = 0") (simp_all add: signed_divide_int_def)

lemma smod_nonneg: "0 \<le> a \<Longrightarrow> 0 < b \<Longrightarrow> (a::int) smod b = a mod b"
  by (cases "a = 0") (simp_all add: signed_modulo_int_def)

lemma render_calls_digits:
  assumes "0 \<le> sint tv" "(d, n) \<in> set (render_calls tv)"
  shows "0 \<le> n \<and> n \<le> 9"
proof -
  have s: "seconds_of tv = (sint tv div 1000) mod 60"
    using assms(1) by (simp add: seconds_of_def sdiv_nonneg smod_nonneg)
  have m: "minutes_of tv = sint tv div 60000"
    using assms(1) by (simp add: minutes_of_def sdiv_nonneg)
  have s0: "0 \<le> seconds_of tv" unfolding s by simp
  have m0: "0 \<le> minutes_of tv" unfolding m using assms(1) by simp
  have "n = seconds_of tv mod 10 \<or> n = (seconds_of tv div 10) mod 10
      \<or> n = minutes_of tv mod 10 \<or> n = (minutes_of tv div 10) mod 10"
    using assms(2) s0 m0 by (auto simp: render_calls_def sdiv_nonneg smod_nonneg)
  then show ?thesis by auto
qed

lemma render_calls_slots: "(d, n) \<in> set (render_calls tv) \<Longrightarrow> 0 \<le> d \<and> d \<le> 3"
  by (auto simp: render_calls_def)

lemma render_loop_Inr:
  assumes "\<forall>(d, n) \<in> set calls. 0 \<le> d \<and> d \<le> 3 \<and> 0 \<le> n \<and> n \<le> 9"
  shows "\<exists>ls'. render_loop calls c ls = Inr ls'"
  using assms
proof (induction calls arbitrary: ls)
  case Nil
  then show ?case by simp
next
  case (Cons call calls)
  obtain d n where call: "call = (d, n)" by (cases call)
  then obtain ls1 where "setDigit d n c ls = Inr ls1"
    using Cons.prems setDigit_loop_Inr [of d n 0 c ls] by (auto simp: setDigit_def)
  then show ?case using Cons call by simp
qed

lemma render_loop_length:
  "render_loop calls c ls = Inr ls' \<Longrightarrow> length ls' = length ls"
proof (induction calls arbitrary: ls)
  case Nil
  then show ?case by simp
next
  case (Cons call calls)
  obtain d n where call: "call = (d, n)" by (cases call)
  then obtain ls1 where 1: "setDigit d n c ls = Inr ls1" and 2: "render_loop calls c ls1 = Inr ls'"
    using Cons.prems by (auto split: sum.splits)
  then show ?case using Cons.IH [OF 2] setDigit_loop_length [of 0 d n c ls ls1]
    by (simp add: setDigit_def)
qed

lemma render_Inr:
  assumes "0 \<le> sint (timeValue s)"
  shows "\<exists>ls. render h s = Inr (s\<lparr>leds := ls\<rparr>)"
proof -
  have "\<forall>(d, n) \<in> set (render_calls (timeValue s)). 0 \<le> d \<and> d \<le> 3 \<and> 0 \<le> n \<and> n \<le> 9"
    using render_calls_digits [OF assms] render_calls_slots by blast
  from render_loop_Inr [OF this] show ?thesis
    by (auto simp: render_def split: sum.splits) (metis sum.simps(6) sum.inject(2) Inl_Inr_False)
qed

lemma render_fields:
  assumes "render h s = Inr s'"
  shows "\<exists>ls. s' = s\<lparr>leds := ls\<rparr> \<and> length ls = length (leds s)"
  using assms render_loop_length
  by (auto simp: render_def split: sum.splits)

text \<open>
  Claim C7. For a digit value \<open>v\<close> from 0 to 9, a slot \<open>d\<close> from 0 to 3 and any base
  colour \<open>c\<close>, \<open>setDigit\<close> succeeds and leaves cell \<open>i\<close> of the slot's block (cell
  \<open>d * NUM_LEDS_PER_DIGIT + i\<close> of the strip) with value 255 when bit \<open>i\<close> of \<open>digits[v]\<close> is
  set and with value 0 when it is not, and with the hue and the saturation of \<open>c\<close>.
\<close>

theorem setDigit_cells:
  assumes "0 \<le> v" "v \<le> 9" "0 \<le> d" "d \<le> 3" "i < NUM_LEDS_PER_DIGIT" "length ls = NUM_LEDS"
  shows "\<exists>ls'. setDigit d v c ls = Inr ls' \<and>
           val (ls' ! (nat d * NUM_LEDS_PER_DIGIT + i)) = (if bit (digits ! nat v) i then 255 else 0) \<and>
           hue (ls' ! (nat d * NUM_LEDS_PER_DIGIT + i)) = hue c \<and>
           sat (ls' ! (nat d * NUM_LEDS_PER_DIGIT + i)) = sat c"
proof -
  obtain ls' where r: "setDigit_loop 0 d v c ls = Inr ls'"
    and cells: "\<forall>j. 0 \<le> j \<longrightarrow> j < NUM_LEDS_PER_DIGIT \<longrightarrow>
              ls' ! (nat d * NUM_LEDS_PER_DIGIT + j) = c\<lparr>val := if bit (digits ! nat v) j then 255 else 0\<rparr>"
    using setDigit_loop_cells [OF assms(3,4,1,2,6), of 0 c] by auto
  have "ls' ! (nat d * NUM_LEDS_PER_DIGIT + i) = c\<lparr>val := if bit (digits ! nat v) i then 255 else 0\<rparr>"
    using cells assms(5) by simp
  then show ?thesis using r by (simp add: setDigit_def)
qed

theorem setDigit_cells_witness:
  "(0::int) \<le> 2 \<and> (2::int) \<le> 9 \<and> (0::int) \<le> 1 \<and> (1::int) \<le> 3 \<and> 5 < NUM_LEDS_PER_DIGIT \<and>
   length (leds setup_timer) = NUM_LEDS \<and>
   (\<exists>ls'. setDigit 1 2 \<lparr>hue = 170, sat = 255, val = 255\<rparr> (leds setup_timer) = Inr ls' \<and>
      val (ls' ! 35) = 255 \<and> hue (ls' ! 35) = 170 \<and> sat (ls' ! 35) = 255)"
proof -
  have h: "(0::int) \<le> 2" "(2::int) \<le> 9" "(0::int) \<le> 1" "(1::int) \<le> 3" "5 < NUM_LEDS_PER_DIGIT"
    "length (leds setup_timer) = NUM_LEDS"
    by (simp_all add: NUM_LEDS_PER_DIGIT_def setup_timer_def)
  have b: "bit (digits ! nat 2) 5" by (simp add: digits_def)
  show ?thesis
    using h setDigit_cells [OF h, of "\<lparr>hue = 170, sat = 255, val = 255\<rparr>"] b
    by (simp add: NUM_LEDS_PER_DIGIT_def)
qed

text \<open>
  Claim C10. Every call of \<open>setDigit\<close> that the render step makes has a slot from 0 to 3;
  for such a call each of the 30 cell indices \<open>display * NUM_LEDS_PER_DIGIT + i\<close> lies
  between 0 and 119, the bit read is one of the bits 0 to 29, and \<open>setDigit\<close> never ends
  with a write outside the strip; with a digit value from 0 to 9 it succeeds and keeps
  the length of the strip.
\<close>

theorem setDigit_writes_in_bounds:
  assumes "(d, n) \<in> set (render_calls tv)"
  shows "0 \<le> d \<and> d \<le> 3 \<and>
         (\<forall>i < NUM_LEDS_PER_DIGIT.
            0 \<le> d * int NUM_LEDS_PER_DIGIT + int i \<and> d * int NUM_LEDS_PER_DIGIT + int i \<le> 119 \<and> i \<le> 29) \<and>
         setDigit d n c ls \<noteq> Inl LedIndexOutOfRange \<and>
         (0 \<le> n \<and> n \<le> 9 \<longrightarrow> (\<exists>ls'. setDigit d n c ls = Inr ls' \<and> length ls' = length ls))"
proof -
  have d: "0 \<le> d \<and> d \<le> 3" using render_calls_slots [OF assms] .
  then have idx: "\<forall>i < NUM_LEDS_PER_DIGIT.
            0 \<le> d * int NUM_LEDS_PER_DIGIT + int i \<and> d * int NUM_LEDS_PER_DIGIT + int i \<le> 119 \<and> i \<le> 29"
    by (auto simp: NUM_LEDS_PER_DIGIT_def)
  have no_err: "setDigit d n c ls \<noteq> Inl LedIndexOutOfRange"
    using d setDigit_loop_no_led_error [of d 0 n c ls] by (simp add: setDigit_def)
  have ok: "\<exists>ls'. setDigit d n c ls = Inr ls' \<and> length ls' = length ls" if "0 \<le> n \<and> n \<le> 9"
    using that d setDigit_loop_Inr [of d n 0 c ls] setDigit_loop_length [of 0 d n c ls]
    by (auto simp: setDigit_def)
  show ?thesis using d idx no_err ok by blast
qed

theorem setDigit_writes_in_bounds_witness:
  "(2, 3) \<in> set (render_calls 754000) \<and>
   (29::nat) < NUM_LEDS_PER_DIGIT \<and>
   0 \<le> 2 * int NUM_LEDS_PER_DIGIT + int 29 \<and> 2 * int NUM_LEDS_PER_DIGIT + int 29 \<le> 119 \<and>
   setDigit 2 3 \<lparr>hue = 0, sat = 255, val = 255\<rparr> (leds setup_timer) \<noteq> Inl LedIndexOutOfRange \<and>
   (0::int) \<le> 3 \<and> (3::int) \<le> 9 \<and>
   (\<exists>ls'. setDigit 2 3 \<lparr>hue = 0, sat = 255, val = 255\<rparr> (leds setup_timer) = Inr ls' \<and>
      length ls' = length (leds setup_timer))"
proof -
  have h: "(2, 3) \<in> set (render_calls 754000)"
    by (simp add: render_calls_def seconds_of_def minutes_of_def signed_divide_int_def
        signed_modulo_int_def)
  have i: "(29::nat) < NUM_LEDS_PER_DIGIT" by (simp add: NUM_LEDS_PER_DIGIT_def)
  note t = setDigit_writes_in_bounds [OF h, of "\<lparr>hue = 0, sat = 255, val = 255\<rparr>" "leds setup_timer"]
  from t have cells: "\<forall>i < NUM_LEDS_PER_DIGIT.
      0 \<le> 2 * int NUM_LEDS_PER_DIGIT + int i \<and> 2 * int NUM_LEDS_PER_DIGIT + int i \<le> 119 \<and> i \<le> 29"
    by blast
  from t have rest: "setDigit 2 3 \<lparr>hue = 0, sat = 255, val = 255\<rparr> (leds setup_timer) \<noteq> Inl LedIndexOutOfRange"
    "\<exists>ls'. setDigit 2 3 \<lparr>hue = 0, sat = 255, val = 255\<rparr> (leds setup_timer) = Inr ls' \<and>
      length ls' = length (leds setup_timer)"
    by simp_all
  from cells i have "0 \<le> 2 * int NUM_LEDS_PER_DIGIT + int 29 \<and> 2 * int NUM_LEDS_PER_DIGIT + int 29 \<le> 119"
    by blast
  with h i rest show ?thesis by simp
qed

section \<open>The timer engine\<close>

subsection \<open>What each step of a pass does to the globals\<close>

lemma receive_fields [simp]:
  "state (receive inp s) = state s"
  "mode (receive inp s) = mode s"
  "startTime (receive inp s) = startTime s"
  "timerDuration (receive inp s) = timerDuration s"
  "cumulativeElapsedTime (receive inp s) = cumulativeElapsedTime s"
  "timeValue (receive inp s) = timeValue s"
  "leds (receive inp s) = leds s"
  by (simp_all add: receive_def split: list.splits)

lemma receive_rx: "rx (receive inp s) = drop 1 (rx s @ arriving inp)"
  by (cases "rx s @ arriving inp") (simp_all add: receive_def)

lemma receive_serial:
  "\<exists>out. serial (receive inp s) = serial s @ out \<and> filter is_start_stop out = []"
  by (auto simp: receive_def is_start_stop_def split: list.splits)

lemma loop_Inr_cases:
  assumes "loop inp s = Inr s'"
  obtains (active) e h where "state s = Active"
      "active_branch inp (receive inp s) = Inr (e, h)" "render h e = Inr s'"
  | (inactive) e h where "state s = Inactive"
      "inactive_branch inp (receive inp s) = (e, h)" "render h e = Inr s'"
proof (cases "state s")
  case Active
  then show ?thesis using assms active
    by (auto simp: loop_def Let_def split: sum.splits prod.splits)
next
  case Inactive
  then show ?thesis using assms inactive
    by (auto simp: loop_def Let_def split: sum.splits prod.splits)
qed

lemma duration_from_message_fields [simp]:
  "timerDuration (duration_from_message s) = 60000 * toInt (message s)"
  "timeValue (duration_from_message s) = 60000 * toInt (message s)"
  "cumulativeElapsedTime (duration_from_message s) = 0"
  "state (duration_from_message s) = Inactive"
  "mode (duration_from_message s) = mode s"
  "startTime (duration_from_message s) = startTime s"
  "message (duration_from_message s) = message s"
  "rx (duration_from_message s) = rx s"
  "leds (duration_from_message s) = leds s"
  "serial (duration_from_message s) = serial s @ [Println ''Timer reset'']"
  by (simp_all add: duration_from_message_def Reset_def Let_def)

lemma subtract_minute_fields [simp]:
  "timerDuration (subtract_minute s) =
     (if 60000 \<le> timerDuration s then timerDuration s - 60000 else timerDuration s)"
  "timeValue (subtract_minute s) = timerDuration (subtract_minute s)"
  "cumulativeElapsedTime (subtract_minute s) = 0"
  "state (subtract_minute s) = Inactive"
  "mode (subtract_minute s) = mode s"
  "startTime (subtract_minute s) = startTime s"
  "message (subtract_minute s) = message s"
  "rx (subtract_minute s) = rx s"
  "leds (subtract_minute s) = leds s"
  "serial (subtract_minute s) =
     serial s @ [PrintlnLong (sint (timerDuration (subtract_minute s))), Println ''Timer reset'']"
  by (simp_all add: subtract_minute_def Reset_def Let_def)

lemma add_minute_fields [simp]:
  "timerDuration (add_minute s) = timerDuration s + 60000"
  "timeValue (add_minute s) = timerDuration s + 60000"
  "cumulativeElapsedTime (add_minute s) = 0"
  "state (add_minute s) = Inactive"
  "mode (add_minute s) = mode s"
  "startTime (add_minute s) = startTime s"
  "message (add_minute s) = message s"
  "rx (add_minute s) = rx s"
  "leds (add_minute s) = leds s"
  "serial (add_minute s) =
     serial s @ [PrintlnLong (sint (timerDuration s + 60000)), Println ''Timer reset'']"
  by (simp_all add: add_minute_def Reset_def Let_def)

lemma choose_mode_and_start_fields [simp]:
  "timerDuration (choose_mode_and_start inp s) = timerDuration s"
  "timeValue (choose_mode_and_start inp s) = timeValue s"
  "cumulativeElapsedTime (choose_mode_and_start inp s) = cumulativeElapsedTime s"
  "state (choose_mode_and_start inp s) = Active"
  "mode (choose_mode_and_start inp s) = (if timerDuration s = 0 then CountUp else CountDown)"
  "startTime (choose_mode_and_start inp s) = callTime inp"
  "message (choose_mode_and_start inp s) = message s"
  "rx (choose_mode_and_start inp s) = rx s"
  "leds (choose_mode_and_start inp s) = leds s"
  "serial (choose_mode_and_start inp s) = serial s @ [Println ''Timer activated!'']"
  by (simp_all add: choose_mode_and_start_def Start_def)

lemma toggle_steps [simp]:
  "toggle inp (duration_from_message s) = toggle inp s"
  "toggle inp (subtract_minute s) = toggle inp s"
  "toggle inp (add_minute s) = toggle inp s"
  by (simp_all add: toggle_def)

lemma inactive_branch_duration:
  "timerDuration (fst (inactive_branch inp s)) =
     (let d0 = 60000 * toInt (message s);
          d1 = (if btnLeft inp \<and> 60000 \<le> d0 then d0 - 60000 else d0)
      in if btnRight inp then d1 + 60000 else d1)"
  by (simp add: inactive_branch_def Let_def)

lemma inactive_branch_timeValue:
  "timeValue (fst (inactive_branch inp s)) = timerDuration (fst (inactive_branch inp s))"
  by (simp add: inactive_branch_def Let_def)

lemma inactive_branch_cumulative:
  "cumulativeElapsedTime (fst (inactive_branch inp s)) = 0"
  by (simp add: inactive_branch_def Let_def)

lemma inactive_branch_state:
  "state (fst (inactive_branch inp s)) = (if toggle inp s then Active else Inactive)"
  by (simp add: inactive_branch_def Let_def)

lemma inactive_branch_mode:
  "mode (fst (inactive_branch inp s)) =
     (if toggle inp s
      then (if timerDuration (fst (inactive_branch inp s)) = 0 then CountUp else CountDown)
      else mode s)"
  by (simp add: inactive_branch_def Let_def)

lemma inactive_branch_startTime:
  "startTime (fst (inactive_branch inp s)) = (if toggle inp s then callTime inp else startTime s)"
  by (simp add: inactive_branch_def Let_def)

lemma inactive_branch_unchanged:
  "message (fst (inactive_branch inp s)) = message s"
  "rx (fst (inactive_branch inp s)) = rx s"
  "leds (fst (inactive_branch inp s)) = leds s"
  by (simp_all add: inactive_branch_def Let_def)

lemma inactive_branch_serial:
  "\<exists>out. serial (fst (inactive_branch inp s)) = serial s @ out \<and>
     filter is_start_stop out = (if toggle inp s then [Println ''Timer activated!''] else [])"
  by (simp add: inactive_branch_def Let_def is_start_stop_def)

lemma toggle_timeValue [simp]:
  "toggle inp (s\<lparr>timeValue := x\<rparr>) = toggle inp s"
  "toggle inp (s\<lparr>timeValue := x, state := y\<rparr>) = toggle inp s"
  by (simp_all add: toggle_def)

lemma active_branch_CountUp:
  assumes "mode s = CountUp"
  shows "active_branch inp s =
     Inr (let s1 = s\<lparr>timeValue := (currentTime inp - startTime s) + cumulativeElapsedTime s\<rparr>
          in if toggle inp s then Stop (callTime inp) s1 else s1, 0)"
  using assms by (simp add: active_branch_def Let_def)

lemma active_branch_CountDown:
  assumes "mode s = CountDown" "timerDuration s \<noteq> 0"
  shows "\<exists>h. active_branch inp s =
     Inr (let v = timerDuration s - (currentTime inp - startTime s) - cumulativeElapsedTime s;
              s2 = (if sint v \<le> 0 then s\<lparr>timeValue := 0, state := Inactive\<rparr>
                    else s\<lparr>timeValue := v\<rparr>)
          in if toggle inp s then Stop (callTime inp) s2 else s2, h)"
  using assms by (simp add: active_branch_def Let_def map_long_def)

lemma active_branch_DivideByZero:
  assumes "active_branch inp s = Inl err"
  shows "mode s = CountDown \<and> timerDuration s = 0"
proof (cases "mode s")
  case CountUp
  then show ?thesis using assms by (simp add: active_branch_CountUp)
next
  case CountDown
  show ?thesis
  proof (cases "timerDuration s = 0")
    case True
    then show ?thesis using CountDown by simp
  next
    case False
    from active_branch_CountDown [OF CountDown False, of inp] show ?thesis
      using assms by auto
  qed
qed

lemma active_branch_zero_duration:
  assumes "mode s = CountDown" "timerDuration s = 0"
  shows "active_branch inp s = Inl DivideByZero"
  using assms by (simp add: active_branch_def Let_def map_long_def)

lemma Stop_fields [simp]:
  "timerDuration (Stop now s) = timerDuration s"
  "timeValue (Stop now s) = timeValue s"
  "cumulativeElapsedTime (Stop now s) = cumulativeElapsedTime s + (now - startTime s)"
  "state (Stop now s) = Inactive"
  "mode (Stop now s) = mode s"
  "startTime (Stop now s) = startTime s"
  "message (Stop now s) = message s"
  "rx (Stop now s) = rx s"
  "leds (Stop now s) = leds s"
  "serial (Stop now s) = serial s @ [Println ''Timer stopped'']"
  by (simp_all add: Stop_def)

lemma active_branch_Inr_cases:
  assumes "active_branch inp s = Inr (e, h)"
  obtains (up) "mode s = CountUp"
      "e = (let s1 = s\<lparr>timeValue := (currentTime inp - startTime s) + cumulativeElapsedTime s\<rparr>
            in if toggle inp s then Stop (callTime inp) s1 else s1)"
  | (down) "mode s = CountDown" "timerDuration s \<noteq> 0"
      "e = (let v = timerDuration s - (currentTime inp - startTime s) - cumulativeElapsedTime s;
                s2 = (if sint v \<le> 0 then s\<lparr>timeValue := 0, state := Inactive\<rparr>
                      else s\<lparr>timeValue := v\<rparr>)
            in if toggle inp s then Stop (callTime inp) s2 else s2)"
proof (cases "mode s")
  case CountUp
  then show ?thesis using assms up by (simp add: active_branch_CountUp)
next
  case CountDown
  have nz: "timerDuration s \<noteq> 0"
    using assms active_branch_zero_duration [OF CountDown, of inp] by auto
  from active_branch_CountDown [OF CountDown nz, of inp] show ?thesis
    using assms down [OF CountDown nz] by auto
qed

lemma active_branch_kept:
  assumes "active_branch inp s = Inr (e, h)"
  shows "timerDuration e = timerDuration s" "mode e = mode s" "startTime e = startTime s"
    "message e = message s" "rx e = rx s" "leds e = leds s"
    "cumulativeElapsedTime e =
       (if toggle inp s then cumulativeElapsedTime s + (callTime inp - startTime s)
        else cumulativeElapsedTime s)"
    "serial e = serial s @ (if toggle inp s then [Println ''Timer stopped''] else [])"
  using assms by (cases rule: active_branch_Inr_cases; simp add: Let_def)+

lemma active_branch_still_Active:
  assumes "active_branch inp s = Inr (e, h)" "state e = Active"
  shows "\<not> toggle inp s"
  using assms by (cases rule: active_branch_Inr_cases) (auto simp: Let_def split: if_splits)

lemma reachable_invariant:
  assumes "reachable s"
  shows "(state s = Active \<longrightarrow>
            cumulativeElapsedTime s = 0 \<and> (mode s = CountDown \<longrightarrow> timerDuration s \<noteq> 0)) \<and>
         length (leds s) = NUM_LEDS"
  using assms
proof (induction rule: reachable.induct)
  case reachable_setup
  then show ?case by (simp add: setup_timer_def)
next
  case (reachable_loop s inp s')
  from reachable_loop.hyps(2) show ?case
  proof (cases rule: loop_Inr_cases)
    case (active e h)
    obtain ls where s': "s' = e\<lparr>leds := ls\<rparr>" and len: "length ls = length (leds e)"
      using render_fields [OF active(3)] by blast
    note kept = active_branch_kept [OF active(2)]
    have "state e = Active \<Longrightarrow> \<not> toggle inp (receive inp s)"
      using active_branch_still_Active [OF active(2)] .
    then show ?thesis
      using reachable_loop.IH active(1) kept(1,2,6,7) s' len by auto
  next
    case (inactive e h)
    obtain ls where s': "s' = e\<lparr>leds := ls\<rparr>" and len: "length ls = length (leds e)"
      using render_fields [OF inactive(3)] by blast
    have e: "e = fst (inactive_branch inp (receive inp s))" using inactive(2) by simp
    show ?thesis
      using reachable_loop.IH s' len
      by (simp add: e inactive_branch_cumulative inactive_branch_mode inactive_branch_state
          inactive_branch_unchanged)
  qed
qed

subsection \<open>Runs and evaluation\<close>

lemma run_reachable: "reachable s \<Longrightarrow> run inps s = Inr s' \<Longrightarrow> reachable s'"
proof (induction inps arbitrary: s)
  case Nil
  then show ?case by simp
next
  case (Cons inp inps)
  then obtain s1 where 1: "loop inp s = Inr s1" and 2: "run inps s1 = Inr s'"
    by (auto split: sum.splits)
  from reachable_loop [OF Cons.prems(1) 1] Cons.IH 2 show ?case by blast
qed

lemma run_setup_reachable: "\<not> isl (run inps setup_timer) \<Longrightarrow> reachable (projr (run inps setup_timer))"
  using run_reachable [OF reachable_setup, of inps "projr (run inps setup_timer)"]
  by simp

lemma sint_word_of_int_long:
  assumes "- 2147483648 \<le> k" "k \<le> 2147483647"
  shows "sint (word_of_int k :: u32) = k"
  using assms by (simp add: sint_sbintrunc' signed_take_bit_int_eq_self)

lemma sint_remaining:
  fixes D e c :: u32
  assumes "- 2147483648 \<le> uint D - uint e - uint c" "uint D - uint e - uint c \<le> 2147483647"
  shows "sint (D - e - c) = uint D - uint e - uint c"
proof -
  have "D - e - c = word_of_int (uint D - uint e - uint c)" by simp
  then show ?thesis using sint_word_of_int_long [OF assms] by presburger
qed

lemma one_minute_countdown_facts:
  "\<not> isl one_minute_countdown"
  "state (projr one_minute_countdown) = Active"
  "mode (projr one_minute_countdown) = CountDown"
  "timerDuration (projr one_minute_countdown) = 60000"
  "startTime (projr one_minute_countdown) = 0"
  "cumulativeElapsedTime (projr one_minute_countdown) = 0"
  "message (projr one_minute_countdown) = ''1''"
  "rx (projr one_minute_countdown) = []"
  unfolding one_minute_countdown_def by code_simp+

subsection \<open>One pass, branch by branch\<close>

lemma loop_Active_CountDown:
  assumes "state s = Active" "mode s = CountDown" "timerDuration s \<noteq> 0"
  shows "\<exists>s'. loop inp s = Inr s' \<and>
     timeValue s' =
       (if sint (timerDuration s - (currentTime inp - startTime s) - cumulativeElapsedTime s) \<le> 0
        then 0
        else timerDuration s - (currentTime inp - startTime s) - cumulativeElapsedTime s) \<and>
     state s' =
       (if sint (timerDuration s - (currentTime inp - startTime s) - cumulativeElapsedTime s) \<le> 0
           \<or> toggle inp (receive inp s)
        then Inactive else Active) \<and>
     cumulativeElapsedTime s' =
       (if toggle inp (receive inp s)
        then cumulativeElapsedTime s + (callTime inp - startTime s)
        else cumulativeElapsedTime s) \<and>
     timerDuration s' = timerDuration s \<and> mode s' = mode s \<and> startTime s' = startTime s"
proof -
  let ?r = "receive inp s"
  let ?v = "timerDuration s - (currentTime inp - startTime s) - cumulativeElapsedTime s"
  have nz: "timerDuration ?r \<noteq> 0" and m: "mode ?r = CountDown" using assms by simp_all
  obtain e h where ab: "active_branch inp ?r = Inr (e, h)"
    using active_branch_CountDown [OF m nz, of inp] by auto
  note kept = active_branch_kept [OF ab]
  from ab have tv: "timeValue e = (if sint ?v \<le> 0 then 0 else ?v)"
  proof (cases rule: active_branch_Inr_cases)
    case up
    then show ?thesis using m by simp
  next
    case down
    then show ?thesis by (simp add: Let_def)
  qed
  from ab have st: "state e = (if sint ?v \<le> 0 \<or> toggle inp ?r then Inactive else Active)"
  proof (cases rule: active_branch_Inr_cases)
    case up
    then show ?thesis using m by simp
  next
    case down
    then show ?thesis using assms(1) by (simp add: Let_def)
  qed
  have nonneg: "0 \<le> sint (timeValue e)"
  proof (cases "sint ?v \<le> 0")
    case True
    then show ?thesis using tv by simp
  next
    case False
    then show ?thesis using tv by simp
  qed
  obtain ls where rn: "render h e = Inr (e\<lparr>leds := ls\<rparr>)" using render_Inr [OF nonneg] by blast
  have lp: "loop inp s = Inr (e\<lparr>leds := ls\<rparr>)"
    using assms(1) ab rn by (simp add: loop_def)
  have 1: "timeValue (e\<lparr>leds := ls\<rparr>) = (if sint ?v \<le> 0 then 0 else ?v)" using tv by simp
  have 2: "state (e\<lparr>leds := ls\<rparr>) = (if sint ?v \<le> 0 \<or> toggle inp ?r then Inactive else Active)"
    using st by simp
  have 3: "cumulativeElapsedTime (e\<lparr>leds := ls\<rparr>) =
       (if toggle inp ?r then cumulativeElapsedTime s + (callTime inp - startTime s)
        else cumulativeElapsedTime s)"
    using kept(7) by simp
  have 4: "timerDuration (e\<lparr>leds := ls\<rparr>) = timerDuration s" "mode (e\<lparr>leds := ls\<rparr>) = mode s"
    "startTime (e\<lparr>leds := ls\<rparr>) = startTime s"
    using kept(1,2,3) by simp_all
  show ?thesis using lp 1 2 3 4 by blast
qed

lemma loop_Inactive:
  assumes "state s = Inactive"
    "0 \<le> sint (timerDuration (fst (inactive_branch inp (receive inp s))))"
  shows "\<exists>ls. loop inp s = Inr ((fst (inactive_branch inp (receive inp s)))\<lparr>leds := ls\<rparr>)"
proof -
  obtain e h where ib: "inactive_branch inp (receive inp s) = (e, h)"
    by (cases "inactive_branch inp (receive inp s)")
  then have e: "fst (inactive_branch inp (receive inp s)) = e" by simp
  have "0 \<le> sint (timeValue e)"
    using assms(2) inactive_branch_timeValue [of inp "receive inp s"] by (simp add: e)
  from render_Inr [OF this, of h] obtain ls where "render h e = Inr (e\<lparr>leds := ls\<rparr>)" by blast
  then have "loop inp s = Inr (e\<lparr>leds := ls\<rparr>)"
    using assms(1) ib by (simp add: loop_def)
  then show ?thesis unfolding e by blast
qed

lemma loop_Inactive_fields:
  assumes "state s = Inactive"
    "0 \<le> sint (timerDuration (fst (inactive_branch inp (receive inp s))))"
  shows "\<exists>s'. loop inp s = Inr s' \<and>
     timerDuration s' = timerDuration (fst (inactive_branch inp (receive inp s))) \<and>
     timeValue s' = timerDuration (fst (inactive_branch inp (receive inp s))) \<and>
     cumulativeElapsedTime s' = 0 \<and>
     state s' = (if toggle inp (receive inp s) then Active else Inactive) \<and>
     mode s' =
       (if toggle inp (receive inp s)
        then (if timerDuration (fst (inactive_branch inp (receive inp s))) = 0
              then CountUp else CountDown)
        else mode s) \<and>
     startTime s' = (if toggle inp (receive inp s) then callTime inp else startTime s)"
proof -
  from loop_Inactive [OF assms] obtain ls where
    "loop inp s = Inr ((fst (inactive_branch inp (receive inp s)))\<lparr>leds := ls\<rparr>)"
    by blast
  then show ?thesis
    by (simp add: inactive_branch_timeValue inactive_branch_cumulative inactive_branch_state
        inactive_branch_mode inactive_branch_startTime)
qed

lemma render_leds:
  assumes "render h e = Inr s'"
  shows "render_loop (render_calls (timeValue e))
           \<lparr>hue = ucast h, sat = 255, val = 255\<rparr> (leds e) = Inr (leds s')"
    and "timeValue s' = timeValue e"
  using assms by (auto simp: render_def split: sum.splits)

lemma toInt_2: "toInt ''2'' = 2"
  by code_simp

lemma uint_word_of_int_u32:
  assumes "0 \<le> x" "x < 4294967296"
  shows "uint (word_of_int x :: u32) = x"
  using assms by (simp add: uint_word_of_int_eq take_bit_int_eq_self)

lemma uint_minutes:
  assumes "0 \<le> k" "k \<le> 71581"
  shows "uint (60000 * word_of_int k :: u32) = 60000 * k"
proof -
  have a: "(60000 * word_of_int k :: u32) = word_of_int (60000 * k)" by simp
  have b: "uint (word_of_int (60000 * k) :: u32) = 60000 * k"
    by (rule uint_word_of_int_u32) (use assms in auto)
  show ?thesis unfolding a by (rule b)
qed

lemma active_passes_kept:
  assumes "active_passes s s1" "state s1 = Active"
  shows "timerDuration s1 = timerDuration s \<and> mode s1 = mode s \<and>
         startTime s1 = startTime s \<and> cumulativeElapsedTime s1 = cumulativeElapsedTime s"
  using assms
proof (induction rule: active_passes.induct)
  case (active_passes_none s)
  then show ?case by simp
next
  case (active_passes_more s s1 inp s2)
  note ih = active_passes_more.IH [OF active_passes_more.hyps(2)]
  from active_passes_more.hyps(3) show ?case
  proof (cases rule: loop_Inr_cases)
    case (active e h)
    obtain ls where s2: "s2 = e\<lparr>leds := ls\<rparr>" using render_fields [OF active(3)] by blast
    note kept = active_branch_kept [OF active(2)]
    have "state e = Active" using active_passes_more.prems s2 by simp
    then have nt: "\<not> toggle inp (receive inp s1)"
      using active_branch_still_Active [OF active(2)] by simp
    show ?thesis using ih kept(1,2,3,7) nt s2 by simp
  next
    case (inactive e h)
    then show ?thesis using active_passes_more.hyps(2) by simp
  qed
qed

lemma loop_advance:
  "loop inp s = (case advance inp s of Inl e \<Rightarrow> Inl e | Inr (s', h) \<Rightarrow> render h s')"
  by (cases "state s"; cases "inactive_branch inp (receive inp s)")
     (simp_all add: loop_def advance_def split: sum.splits)

lemma advance_Inr_cases:
  assumes "advance inp s = Inr (e, h)"
  obtains (active) "state s = Active" "active_branch inp (receive inp s) = Inr (e, h)"
  | (inactive) "state s = Inactive" "inactive_branch inp (receive inp s) = (e, h)"
  using assms by (cases "state s") (simp_all add: advance_def)

lemma idle_duration_minutes:
  assumes "0 \<le> atol m" "atol m \<le> 71581"
  shows "\<exists>k. 0 \<le> k \<and> k \<le> 71582 \<and>
           uint (let d0 = 60000 * toInt m;
                     d1 = (if bl \<and> 60000 \<le> d0 then d0 - 60000 else d0)
                 in if br then d1 + 60000 else d1) = 60000 * k"
proof -
  define k where "k = atol m"
  define d0 :: u32 where "d0 = 60000 * toInt m"
  define d1 where "d1 = (if bl \<and> 60000 \<le> d0 then d0 - 60000 else d0)"
  have k: "0 \<le> k" "k \<le> 71581" using assms by (simp_all add: k_def)
  have u0: "uint d0 = 60000 * k"
    using uint_minutes [OF k] by (simp add: d0_def toInt_def k_def)
  have u1: "\<exists>j. 0 \<le> j \<and> j \<le> 71581 \<and> uint d1 = 60000 * j"
  proof (cases "bl \<and> 60000 \<le> d0")
    case True
    then have "uint (60000 :: u32) \<le> uint d0" by (simp add: word_le_def)
    then have k1: "1 \<le> k" using u0 by simp
    from True have "uint (d0 - 60000) = uint d0 - uint (60000 :: u32)"
      by (simp add: uint_minus_simple_alt)
    then have "uint d1 = 60000 * k - 60000" using True u0 by (simp add: d1_def)
    then have "uint d1 = 60000 * (k - 1)" by (simp add: algebra_simps)
    then show ?thesis using k k1 by (intro exI [of _ "k - 1"]) simp
  next
    case False
    then have "uint d1 = 60000 * k" using u0 by (auto simp: d1_def)
    then show ?thesis using k by blast
  qed
  then obtain j where j: "0 \<le> j" "j \<le> 71581" "uint d1 = 60000 * j" by blast
  have u2: "uint (d1 + 60000) = 60000 * (j + 1)"
  proof -
    have "uint d1 + uint (60000 :: u32) < 2 ^ LENGTH(32)" using j by simp
    then have "uint (d1 + 60000) = uint d1 + uint (60000 :: u32)"
      by (simp only: uint_add_lem)
    then have "uint (d1 + 60000) = uint d1 + 60000" by simp
    then have "uint (d1 + 60000) = 60000 * j + 60000" using j(3) by simp
    then show ?thesis by (simp only: distrib_left mult_1_right)
  qed
  have "\<exists>k. 0 \<le> k \<and> k \<le> 71582 \<and> uint (if br then d1 + 60000 else d1) = 60000 * k"
  proof (cases br)
    case True
    then show ?thesis using u2 j by (intro exI [of _ "j + 1"]) simp
  next
    case False
    then show ?thesis using j by (intro exI [of _ j]) simp
  qed
  then show ?thesis unfolding d1_def d0_def Let_def .
qed

lemma run_in_range_reachable:
  "reachable_in_range s \<Longrightarrow> run_in_range inps s = Some s' \<Longrightarrow> reachable_in_range s'"
proof (induction inps arbitrary: s)
  case Nil
  then show ?case by simp
next
  case (Cons inp inps)
  from Cons.prems(2) obtain e h where m: "minutes_in_range inp s"
    and a: "advance inp s = Inr (e, h)" and r: "run_in_range inps e = Some s'"
    by (auto split: if_splits sum.splits)
  have "reachable_in_range (e\<lparr>leds := leds e\<rparr>)"
    using in_range_pass [OF Cons.prems(1) m a] .
  then have "reachable_in_range e" by simp
  from Cons.IH [OF this r] show ?case .
qed

subsection \<open>The countdown\<close>

text \<open>
  Claim C9. In every state the sketch can reach, when the engine is Active in CountDown
  mode then \<open>timerDuration\<close> is positive; so the divisor of
  \<open>map(timeValue, 0, timerDuration, 0, 100)\<close> is not zero, whatever its first argument,
  and the Active branch of the pass does not end in a division by zero.
\<close>

theorem countdown_duration_positive:
  assumes "reachable s" "state s = Active" "mode s = CountDown"
  shows "0 < unat (timerDuration s) \<and>
         (\<forall>x. map_long x 0 (timerDuration s) 0 100 \<noteq> Inl DivideByZero) \<and>
         (\<exists>e h. active_branch inp (receive inp s) = Inr (e, h))"
proof -
  have nz: "timerDuration s \<noteq> 0" using reachable_invariant [OF assms(1)] assms(2,3) by simp
  then have "0 < unat (timerDuration s)" by (simp add: unat_gt_0)
  moreover have "\<forall>x. map_long x 0 (timerDuration s) 0 100 \<noteq> Inl DivideByZero"
    using nz by (simp add: map_long_def)
  moreover have "\<exists>e h. active_branch inp (receive inp s) = Inr (e, h)"
    using active_branch_CountDown [of "receive inp s" inp] assms(3) nz by auto
  ultimately show ?thesis by blast
qed

theorem countdown_duration_positive_witness:
  "reachable (projr one_minute_countdown) \<and>
   state (projr one_minute_countdown) = Active \<and>
   mode (projr one_minute_countdown) = CountDown \<and>
   0 < unat (timerDuration (projr one_minute_countdown)) \<and>
   (\<exists>e h. active_branch (no_input 20000) (receive (no_input 20000) (projr one_minute_countdown))
      = Inr (e, h))"
proof -
  have r: "reachable (projr one_minute_countdown)"
    using run_setup_reachable one_minute_countdown_facts(1)
    unfolding one_minute_countdown_def by blast
  note f = one_minute_countdown_facts(2,3)
  from countdown_duration_positive [OF r f, of "no_input 20000"] r f show ?thesis by blast
qed

text \<open>
  Claim C4, as the spec states it, fails. The bytes \<open>-100\<close> arrive while a count-up runs,
  the timer is stopped, and the start button is pressed in the next Inactive pass: the
  engine is then Active in CountDown mode with the duration 4288967296 and a displayed
  value that is the copy of it, -6000000 as a \<open>long\<close>. In the pass 20 ms later the
  difference of duration, elapsed time and cumulative time is 4288967276 as an integer,
  which is positive, but the displayed value is 0 and the engine Inactive.
\<close>

theorem start_pass_shows_negative:
  "map_sum id state
     (run [(no_input 0)\<lparr>arriving := ''-100'', btnStart := True\<rparr>, no_input 20, no_input 40,
           (no_input 60)\<lparr>btnStart := True\<rparr>, (no_input 80)\<lparr>btnStart := True\<rparr>] setup_timer)
     = Inr Active \<and>
   map_sum id mode
     (run [(no_input 0)\<lparr>arriving := ''-100'', btnStart := True\<rparr>, no_input 20, no_input 40,
           (no_input 60)\<lparr>btnStart := True\<rparr>, (no_input 80)\<lparr>btnStart := True\<rparr>] setup_timer)
     = Inr CountDown \<and>
   map_sum id (sint \<circ> timeValue)
     (run [(no_input 0)\<lparr>arriving := ''-100'', btnStart := True\<rparr>, no_input 20, no_input 40,
           (no_input 60)\<lparr>btnStart := True\<rparr>, (no_input 80)\<lparr>btnStart := True\<rparr>] setup_timer)
     = Inr (- 6000000) \<and>
   map_sum id (uint \<circ> timerDuration)
     (run [(no_input 0)\<lparr>arriving := ''-100'', btnStart := True\<rparr>, no_input 20, no_input 40,
           (no_input 60)\<lparr>btnStart := True\<rparr>, (no_input 80)\<lparr>btnStart := True\<rparr>] setup_timer)
     = Inr 4288967296 \<and>
   map_sum id startTime
     (run [(no_input 0)\<lparr>arriving := ''-100'', btnStart := True\<rparr>, no_input 20, no_input 40,
           (no_input 60)\<lparr>btnStart := True\<rparr>, (no_input 80)\<lparr>btnStart := True\<rparr>] setup_timer)
     = Inr 80 \<and>
   map_sum id cumulativeElapsedTime
     (run [(no_input 0)\<lparr>arriving := ''-100'', btnStart := True\<rparr>, no_input 20, no_input 40,
           (no_input 60)\<lparr>btnStart := True\<rparr>, (no_input 80)\<lparr>btnStart := True\<rparr>] setup_timer)
     = Inr 0 \<and>
   map_sum id timeValue
     (run [(no_input 0)\<lparr>arriving := ''-100'', btnStart := True\<rparr>, no_input 20, no_input 40,
           (no_input 60)\<lparr>btnStart := True\<rparr>, (no_input 80)\<lparr>btnStart := True\<rparr>,
           no_input 100] setup_timer)
     = Inr 0 \<and>
   map_sum id state
     (run [(no_input 0)\<lparr>arriving := ''-100'', btnStart := True\<rparr>, no_input 20, no_input 40,
           (no_input 60)\<lparr>btnStart := True\<rparr>, (no_input 80)\<lparr>btnStart := True\<rparr>,
           no_input 100] setup_timer)
     = Inr Inactive"
  by code_simp

text \<open>
  Claim C4, amended. From a reachable state that is Active in CountDown mode, a pass
  succeeds and computes \<open>v = timerDuration - (currentTime - startTime) - cumulativeElapsedTime\<close>
  in 32-bit arithmetic, read as a \<open>long\<close>. When \<open>v \<le> 0\<close> the displayed \<open>timeValue\<close> is 0
  and the engine is Inactive after that same pass; otherwise \<open>timeValue\<close> is \<open>v\<close>. So after
  every pass that began Active in CountDown mode \<open>timeValue\<close> is not negative. When the
  difference of the three quantities as integers fits a \<open>long\<close>, \<open>v\<close> is that integer.
\<close>

theorem countdown_tick:
  assumes "reachable s" "state s = Active" "mode s = CountDown"
  shows "\<exists>s'. loop inp s = Inr s' \<and>
           (let v = timerDuration s - (currentTime inp - startTime s) - cumulativeElapsedTime s;
                q = uint (timerDuration s) - uint (currentTime inp - startTime s)
                      - uint (cumulativeElapsedTime s)
            in timeValue s' = (if sint v \<le> 0 then 0 else v) \<and>
               (sint v \<le> 0 \<longrightarrow> state s' = Inactive) \<and>
               0 \<le> sint (timeValue s') \<and>
               (- 2147483648 \<le> q \<and> q \<le> 2147483647 \<longrightarrow> sint v = q))"
proof -
  let ?v = "timerDuration s - (currentTime inp - startTime s) - cumulativeElapsedTime s"
  let ?q = "uint (timerDuration s) - uint (currentTime inp - startTime s)
              - uint (cumulativeElapsedTime s)"
  have nz: "timerDuration s \<noteq> 0" using reachable_invariant [OF assms(1)] assms(2,3) by simp
  from loop_Active_CountDown [OF assms(2,3) nz, of inp] obtain s' where
    lp: "loop inp s = Inr s'"
    and tv: "timeValue s' = (if sint ?v \<le> 0 then 0 else ?v)"
    and st: "state s' = (if sint ?v \<le> 0 \<or> toggle inp (receive inp s) then Inactive else Active)"
    by blast
  have 2: "sint ?v \<le> 0 \<longrightarrow> state s' = Inactive" using st by simp
  have 3: "0 \<le> sint (timeValue s')"
  proof (cases "sint ?v \<le> 0")
    case True
    then show ?thesis using tv by simp
  next
    case False
    then show ?thesis using tv by simp
  qed
  have q: "sint ?v = ?q" if "- 2147483648 \<le> ?q \<and> ?q \<le> 2147483647"
    using that sint_remaining [of "timerDuration s" "currentTime inp - startTime s"
        "cumulativeElapsedTime s"] by blast
  then have 4: "- 2147483648 \<le> ?q \<and> ?q \<le> 2147483647 \<longrightarrow> sint ?v = ?q" by blast
  show ?thesis unfolding Let_def using lp tv 2 3 4 by blast
qed

theorem countdown_tick_witness:
  "reachable (projr one_minute_countdown) \<and>
   state (projr one_minute_countdown) = Active \<and>
   mode (projr one_minute_countdown) = CountDown \<and>
   (\<exists>s'. loop (no_input 20000) (projr one_minute_countdown) = Inr s' \<and>
      timeValue s' = 40000 \<and> 0 \<le> sint (timeValue s')) \<and>
   (\<exists>s'. loop (no_input 60000) (projr one_minute_countdown) = Inr s' \<and>
      timeValue s' = 0 \<and> state s' = Inactive)"
proof -
  have r: "reachable (projr one_minute_countdown)"
    using run_setup_reachable one_minute_countdown_facts(1)
    unfolding one_minute_countdown_def by blast
  note f = one_minute_countdown_facts(2,3)
  note v = one_minute_countdown_facts(4,5,6)
  have a: "\<exists>s'. loop (no_input 20000) (projr one_minute_countdown) = Inr s' \<and>
      timeValue s' = 40000 \<and> 0 \<le> sint (timeValue s')"
    using countdown_tick [OF r f, of "no_input 20000"] unfolding Let_def v no_input_def
    by simp
  have b: "\<exists>s'. loop (no_input 60000) (projr one_minute_countdown) = Inr s' \<and>
      timeValue s' = 0 \<and> state s' = Inactive"
    using countdown_tick [OF r f, of "no_input 60000"] unfolding Let_def v no_input_def
    by auto
  show ?thesis using r f a b by blast
qed

subsection \<open>Countdown expiry\<close>

text \<open>
  Claim C5, as the spec states it, fails. A one-minute countdown started at clock reading 0
  expires in the pass at clock reading 60000: the engine is Inactive and \<open>timeValue\<close> is
  0, but \<open>cumulativeElapsedTime\<close> is still 0, while \<open>Stop\<close> called at that reading would
  have made it 60000.
\<close>

theorem expiry_skips_Stop:
  "map_sum id state
     (run [(no_input 0)\<lparr>arriving := ''1'', btnStart := True\<rparr>, no_input 60000] setup_timer)
     = Inr Inactive \<and>
   map_sum id timeValue
     (run [(no_input 0)\<lparr>arriving := ''1'', btnStart := True\<rparr>, no_input 60000] setup_timer)
     = Inr 0 \<and>
   map_sum id cumulativeElapsedTime
     (run [(no_input 0)\<lparr>arriving := ''1'', btnStart := True\<rparr>, no_input 60000] setup_timer)
     = Inr 0 \<and>
   map_sum id (cumulativeElapsedTime \<circ> Stop 60000)
     (run [(no_input 0)\<lparr>arriving := ''1'', btnStart := True\<rparr>] setup_timer)
     = Inr 60000"
  by code_simp

text \<open>
  Claim C5, amended. When a countdown reaches zero, the pass sets \<open>timeValue\<close> to 0 and
  the engine to Inactive by a direct assignment, without the Stop transition:
  \<open>cumulativeElapsedTime\<close> is left as it was. Only when a toggle event (the start button
  or the message \<open>s\<close>) occurs in that same pass does \<open>Stop\<close> run and add
  \<open>now - startTime\<close>.
\<close>

theorem countdown_expiry:
  assumes "reachable s" "state s = Active" "mode s = CountDown"
    "sint (timerDuration s - (currentTime inp - startTime s) - cumulativeElapsedTime s) \<le> 0"
  shows "\<exists>s'. loop inp s = Inr s' \<and> state s' = Inactive \<and> timeValue s' = 0 \<and>
           cumulativeElapsedTime s' =
             (if toggle inp (receive inp s)
              then cumulativeElapsedTime (Stop (callTime inp) s)
              else cumulativeElapsedTime s)"
proof -
  have nz: "timerDuration s \<noteq> 0" using reachable_invariant [OF assms(1)] assms(2,3) by simp
  from loop_Active_CountDown [OF assms(2,3) nz, of inp] assms(4) show ?thesis
    by auto
qed

theorem countdown_expiry_witness:
  "reachable (projr one_minute_countdown) \<and>
   state (projr one_minute_countdown) = Active \<and>
   mode (projr one_minute_countdown) = CountDown \<and>
   sint (timerDuration (projr one_minute_countdown)
         - (currentTime (no_input 60000) - startTime (projr one_minute_countdown))
         - cumulativeElapsedTime (projr one_minute_countdown)) \<le> 0 \<and>
   (\<exists>s'. loop (no_input 60000) (projr one_minute_countdown) = Inr s' \<and> state s' = Inactive \<and>
      timeValue s' = 0 \<and> cumulativeElapsedTime s' = 0)"
proof -
  have r: "reachable (projr one_minute_countdown)"
    using run_setup_reachable one_minute_countdown_facts(1)
    unfolding one_minute_countdown_def by blast
  note f = one_minute_countdown_facts(2,3)
  note v = one_minute_countdown_facts(4,5,6)
  have z: "sint (timerDuration (projr one_minute_countdown)
         - (currentTime (no_input 60000) - startTime (projr one_minute_countdown))
         - cumulativeElapsedTime (projr one_minute_countdown)) \<le> 0"
    unfolding v no_input_def by simp
  have nt: "\<not> toggle (no_input 60000) (receive (no_input 60000) (projr one_minute_countdown))"
    unfolding one_minute_countdown_def by code_simp
  have "\<exists>s'. loop (no_input 60000) (projr one_minute_countdown) = Inr s' \<and> state s' = Inactive \<and>
      timeValue s' = 0 \<and> cumulativeElapsedTime s' = 0"
    using countdown_expiry [OF r f z] nt v(3) by simp
  then show ?thesis using r f z by blast
qed

subsection \<open>Transitions per pass\<close>

text \<open>
  Claim C8. A pass that completes takes at most one byte from the receive queue; prints
  at most one of the lines of \<open>Start\<close> and \<open>Stop\<close>, and exactly one when the toggle event
  holds after that byte was received: the line of \<open>Stop\<close> when the pass began Active, the
  line of \<open>Start\<close> when it began Inactive; and the strip it leaves is the rendering of the
  \<open>timeValue\<close> it leaves, written once over the strip it found. So input is sampled
  first, the engine advances at most once, and the output is rendered last.
\<close>

theorem one_transition_per_pass:
  assumes "loop inp s = Inr s'"
  shows "rx s' = drop 1 (rx s @ arriving inp) \<and>
         (\<exists>out. serial s' = serial s @ out \<and>
            filter is_start_stop out =
              (if toggle inp (receive inp s)
               then [if state s = Active then Println ''Timer stopped''
                     else Println ''Timer activated!'']
               else []) \<and>
            length (filter is_start_stop out) \<le> 1) \<and>
         (state s = Inactive \<longrightarrow>
            state s' = (if toggle inp (receive inp s) then Active else Inactive)) \<and>
         (state s = Active \<and> toggle inp (receive inp s) \<longrightarrow> state s' = Inactive) \<and>
         (\<exists>timeHue. render_loop (render_calls (timeValue s'))
                       \<lparr>hue = timeHue, sat = 255, val = 255\<rparr> (leds s) = Inr (leds s'))"
  using assms
proof (cases rule: loop_Inr_cases)
  case (active e h)
  obtain ls where s': "s' = e\<lparr>leds := ls\<rparr>" using render_fields [OF active(3)] by blast
  note kept = active_branch_kept [OF active(2)]
  obtain out0 where o: "serial (receive inp s) = serial s @ out0" "filter is_start_stop out0 = []"
    using receive_serial by blast
  let ?x = "if toggle inp (receive inp s) then [Println ''Timer stopped''] else []"
  have ser: "serial s' = serial s @ (out0 @ ?x)" using s' kept(8) o(1) by simp
  have fil: "filter is_start_stop (out0 @ ?x) =
      (if toggle inp (receive inp s)
       then [if state s = Active then Println ''Timer stopped'' else Println ''Timer activated!'']
       else [])"
    using o(2) active(1) by (simp add: is_start_stop_def)
  have len: "length (filter is_start_stop (out0 @ ?x)) \<le> 1" unfolding fil by simp
  have rxs: "rx s' = drop 1 (rx s @ arriving inp)" using s' kept(5) receive_rx by simp
  have st: "state s = Active \<and> toggle inp (receive inp s) \<longrightarrow> state s' = Inactive"
    using active_branch_still_Active [OF active(2)] s' by (cases "state e") auto
  have rl: "render_loop (render_calls (timeValue s'))
       \<lparr>hue = ucast h, sat = 255, val = 255\<rparr> (leds s) = Inr (leds s')"
    using render_leds [OF active(3)] kept(6) by simp
  have ex1: "\<exists>out. serial s' = serial s @ out \<and>
            filter is_start_stop out =
              (if toggle inp (receive inp s)
               then [if state s = Active then Println ''Timer stopped''
                     else Println ''Timer activated!'']
               else []) \<and>
            length (filter is_start_stop out) \<le> 1"
    by (rule exI [of _ "out0 @ ?x"]) (intro conjI ser fil len)
  have st0: "state s = Inactive \<longrightarrow>
            state s' = (if toggle inp (receive inp s) then Active else Inactive)"
    using active(1) by simp
  have ex2: "\<exists>timeHue. render_loop (render_calls (timeValue s'))
                       \<lparr>hue = timeHue, sat = 255, val = 255\<rparr> (leds s) = Inr (leds s')"
    using rl by (rule exI)
  show ?thesis by (intro conjI rxs ex1 st0 st ex2)
next
  case (inactive e h)
  obtain ls where s': "s' = e\<lparr>leds := ls\<rparr>" using render_fields [OF inactive(3)] by blast
  have e: "e = fst (inactive_branch inp (receive inp s))" using inactive(2) by simp
  obtain out0 where o: "serial (receive inp s) = serial s @ out0" "filter is_start_stop out0 = []"
    using receive_serial by blast
  obtain out1 where o1: "serial e = serial (receive inp s) @ out1"
    "filter is_start_stop out1 =
       (if toggle inp (receive inp s) then [Println ''Timer activated!''] else [])"
    using inactive_branch_serial [of inp "receive inp s"] e by blast
  have ser: "serial s' = serial s @ (out0 @ out1)" using s' o(1) o1(1) by simp
  have fil: "filter is_start_stop (out0 @ out1) =
      (if toggle inp (receive inp s)
       then [if state s = Active then Println ''Timer stopped'' else Println ''Timer activated!'']
       else [])"
    using o(2) o1(2) inactive(1) by simp
  have len: "length (filter is_start_stop (out0 @ out1)) \<le> 1" unfolding fil by simp
  have rxs: "rx s' = drop 1 (rx s @ arriving inp)"
    using s' e inactive_branch_unchanged(2) [of inp "receive inp s"] receive_rx by simp
  have st: "state s' = (if toggle inp (receive inp s) then Active else Inactive)"
    using s' e inactive_branch_state [of inp "receive inp s"] by simp
  have le: "leds e = leds s" using e inactive_branch_unchanged(3) [of inp "receive inp s"] by simp
  have rl: "render_loop (render_calls (timeValue s'))
       \<lparr>hue = ucast h, sat = 255, val = 255\<rparr> (leds s) = Inr (leds s')"
    using render_leds [OF inactive(3)] le by simp
  have ex1: "\<exists>out. serial s' = serial s @ out \<and>
            filter is_start_stop out =
              (if toggle inp (receive inp s)
               then [if state s = Active then Println ''Timer stopped''
                     else Println ''Timer activated!'']
               else []) \<and>
            length (filter is_start_stop out) \<le> 1"
    by (rule exI [of _ "out0 @ out1"]) (intro conjI ser fil len)
  have st0: "state s = Inactive \<longrightarrow>
            state s' = (if toggle inp (receive inp s) then Active else Inactive)"
    using st by simp
  have st1: "state s = Active \<and> toggle inp (receive inp s) \<longrightarrow> state s' = Inactive"
    using inactive(1) by simp
  have ex2: "\<exists>timeHue. render_loop (render_calls (timeValue s'))
                       \<lparr>hue = timeHue, sat = 255, val = 255\<rparr> (leds s) = Inr (leds s')"
    using rl by (rule exI)
  show ?thesis by (intro conjI rxs ex1 st0 st1 ex2)
qed

theorem one_transition_per_pass_witness:
  "loop ((no_input 0)\<lparr>btnStart := True\<rparr>) setup_timer
     = Inr (projr (loop ((no_input 0)\<lparr>btnStart := True\<rparr>) setup_timer)) \<and>
   rx (projr (loop ((no_input 0)\<lparr>btnStart := True\<rparr>) setup_timer)) = [] \<and>
   (\<exists>out. serial (projr (loop ((no_input 0)\<lparr>btnStart := True\<rparr>) setup_timer))
            = serial setup_timer @ out \<and>
      filter is_start_stop out = [Println ''Timer activated!''] \<and>
      length (filter is_start_stop out) \<le> 1) \<and>
   state (projr (loop ((no_input 0)\<lparr>btnStart := True\<rparr>) setup_timer)) = Active"
proof -
  let ?inp = "(no_input 0)\<lparr>btnStart := True\<rparr>"
  have "\<not> isl (loop ?inp setup_timer)" by code_simp
  then have h: "loop ?inp setup_timer = Inr (projr (loop ?inp setup_timer))" by simp
  have tg: "toggle ?inp (receive ?inp setup_timer)" by (simp add: toggle_def no_input_def)
  have st: "state setup_timer = Inactive" by (simp add: setup_timer_def)
  have rx0: "drop 1 (rx setup_timer @ arriving ?inp) = []"
    by (simp add: setup_timer_def no_input_def)
  from one_transition_per_pass [OF h] h tg st rx0 show ?thesis by simp
qed

subsection \<open>Runs from the initial state\<close>

text \<open>
  Claim C1 against the code. The start button is pressed at clock readings 0 (Start,
  counting up), 1500 (Stop) and 2000 (Start), with no duration button and no message in
  between. After the Stop, \<open>cumulativeElapsedTime\<close> is 1500; the next pass is Inactive and
  calls \<open>Reset\<close> before it looks at the button, so the second session starts from 0, and
  at clock reading 2500 the display shows 500, not 2000.
\<close>

theorem restart_drops_elapsed_time:
  "map_sum id cumulativeElapsedTime
     (run [(no_input 0)\<lparr>btnStart := True\<rparr>, (no_input 1500)\<lparr>btnStart := True\<rparr>] setup_timer)
     = Inr 1500 \<and>
   map_sum id cumulativeElapsedTime
     (run [(no_input 0)\<lparr>btnStart := True\<rparr>, (no_input 1500)\<lparr>btnStart := True\<rparr>,
           (no_input 2000)\<lparr>btnStart := True\<rparr>] setup_timer)
     = Inr 0 \<and>
   map_sum id timeValue
     (run [(no_input 0)\<lparr>btnStart := True\<rparr>, (no_input 1500)\<lparr>btnStart := True\<rparr>,
           (no_input 2000)\<lparr>btnStart := True\<rparr>, no_input 2500] setup_timer)
     = Inr 500"
  by code_simp

text \<open>
  Claim C3 against the code. With an empty message buffer, the increase button is pressed
  in three passes in a row: each pass first sets the duration to 0 from the buffer, so the
  duration is 60000 after the third press, not 180000. A press of the decrease button in
  the next pass leaves 0, not 120000. \<open>cumulativeElapsedTime\<close> is 0 throughout.
\<close>

theorem button_presses_do_not_accumulate:
  "map_sum id timerDuration
     (run [(no_input 0)\<lparr>btnRight := True\<rparr>, (no_input 20)\<lparr>btnRight := True\<rparr>,
           (no_input 40)\<lparr>btnRight := True\<rparr>] setup_timer)
     = Inr 60000 \<and>
   map_sum id timerDuration
     (run [(no_input 0)\<lparr>btnRight := True\<rparr>, (no_input 20)\<lparr>btnRight := True\<rparr>,
           (no_input 40)\<lparr>btnRight := True\<rparr>, (no_input 60)\<lparr>btnLeft := True\<rparr>] setup_timer)
     = Inr 0 \<and>
   map_sum id cumulativeElapsedTime
     (run [(no_input 0)\<lparr>btnRight := True\<rparr>, (no_input 20)\<lparr>btnRight := True\<rparr>,
           (no_input 40)\<lparr>btnRight := True\<rparr>, (no_input 60)\<lparr>btnLeft := True\<rparr>] setup_timer)
     = Inr 0"
  by code_simp

subsection \<open>The duration set by a remote message\<close>

text \<open>
  Claim C2, as the spec states it, fails. The bytes \<open>2\<close> and newline arrive together.
  The first pass reads the \<open>2\<close> and sets the duration to 120000; the second pass reads
  the newline, which empties the buffer, and sets the duration to 0. A press of the start
  button in a third pass starts a count-up from 0.
\<close>

theorem newline_clears_duration:
  "map_sum id timerDuration
     (run [(no_input 0)\<lparr>arriving := [CHR ''2'', CHR 0x0A]\<rparr>] setup_timer)
     = Inr 120000 \<and>
   map_sum id timerDuration
     (run [(no_input 0)\<lparr>arriving := [CHR ''2'', CHR 0x0A]\<rparr>, no_input 20] setup_timer)
     = Inr 0 \<and>
   map_sum id mode
     (run [(no_input 0)\<lparr>arriving := [CHR ''2'', CHR 0x0A]\<rparr>, no_input 20,
           (no_input 40)\<lparr>btnStart := True\<rparr>] setup_timer)
     = Inr CountUp \<and>
   map_sum id timeValue
     (run [(no_input 0)\<lparr>arriving := [CHR ''2'', CHR 0x0A]\<rparr>, no_input 20,
           (no_input 40)\<lparr>btnStart := True\<rparr>] setup_timer)
     = Inr 0"
  by code_simp

text \<open>
  Claim C2, amended. While the message buffer holds \<open>2\<close> (the digit has been received,
  the newline has not yet been read), an Inactive pass without a duration button leaves
  the duration and the displayed value at 120000 and \<open>cumulativeElapsedTime\<close> at 0. When
  the start button is pressed in such a pass, a CountDown session starts at
  \<open>startTime = callTime\<close>, and in every later pass of that session, however many passes
  came before it, the displayed value is 120000 less the time since the start while that
  is positive, and 0 with the engine Inactive once it is not.
\<close>

theorem duration_while_message_buffered:
  assumes "state s = Inactive" "message (receive inp s) = ''2''" "\<not> btnLeft inp" "\<not> btnRight inp"
  shows "\<exists>s'. loop inp s = Inr s' \<and> timerDuration s' = 120000 \<and> timeValue s' = 120000 \<and>
           cumulativeElapsedTime s' = 0 \<and>
           state s' = (if btnStart inp then Active else Inactive) \<and>
           (btnStart inp \<longrightarrow>
              mode s' = CountDown \<and> startTime s' = callTime inp \<and>
              (\<forall>s1 inp2. active_passes s' s1 \<and> state s1 = Active \<longrightarrow>
                 (\<exists>s2. loop inp2 s1 = Inr s2 \<and>
                    timeValue s2 =
                      (if sint (120000 - (currentTime inp2 - callTime inp)) \<le> 0 then 0
                       else 120000 - (currentTime inp2 - callTime inp)) \<and>
                    state s2 =
                      (if sint (120000 - (currentTime inp2 - callTime inp)) \<le> 0
                          \<or> toggle inp2 (receive inp2 s1)
                       then Inactive else Active))))"
proof -
  let ?r = "receive inp s"
  have tg: "toggle inp ?r = btnStart inp" using assms(2) by (simp add: toggle_def)
  have d: "timerDuration (fst (inactive_branch inp ?r)) = 120000"
    using assms(2,3,4) by (simp add: inactive_branch_duration toInt_2)
  have "0 \<le> sint (timerDuration (fst (inactive_branch inp ?r)))" unfolding d by simp
  from loop_Inactive_fields [OF assms(1) this] obtain s' where lp: "loop inp s = Inr s'"
    and 1: "timerDuration s' = 120000" and 2: "timeValue s' = 120000"
    and 3: "cumulativeElapsedTime s' = 0"
    and 4: "state s' = (if btnStart inp then Active else Inactive)"
    and md: "mode s' = (if btnStart inp then CountDown else mode s)"
    and st: "startTime s' = (if btnStart inp then callTime inp else startTime s)"
    unfolding d tg by auto
  have 5: "mode s' = CountDown \<and> startTime s' = callTime inp \<and>
       (\<forall>s1 inp2. active_passes s' s1 \<and> state s1 = Active \<longrightarrow>
          (\<exists>s2. loop inp2 s1 = Inr s2 \<and>
             timeValue s2 =
               (if sint (120000 - (currentTime inp2 - callTime inp)) \<le> 0 then 0
                else 120000 - (currentTime inp2 - callTime inp)) \<and>
             state s2 =
               (if sint (120000 - (currentTime inp2 - callTime inp)) \<le> 0
                   \<or> toggle inp2 (receive inp2 s1)
                then Inactive else Active)))"
    if b: "btnStart inp"
  proof -
    have m: "mode s' = CountDown" and st1: "startTime s' = callTime inp"
      using b md st by simp_all
    have later: "\<exists>s2. loop inp2 s1 = Inr s2 \<and>
             timeValue s2 =
               (if sint (120000 - (currentTime inp2 - callTime inp)) \<le> 0 then 0
                else 120000 - (currentTime inp2 - callTime inp)) \<and>
             state s2 =
               (if sint (120000 - (currentTime inp2 - callTime inp)) \<le> 0
                   \<or> toggle inp2 (receive inp2 s1)
                then Inactive else Active)"
      if ap: "active_passes s' s1" and a1: "state s1 = Active" for s1 inp2
    proof -
      from active_passes_kept [OF ap a1]
      have k: "timerDuration s1 = 120000" "mode s1 = CountDown" "startTime s1 = callTime inp"
        "cumulativeElapsedTime s1 = 0"
        using 1 3 m st1 by simp_all
      have nz: "timerDuration s1 \<noteq> 0" using k(1) by simp
      have v: "timerDuration s1 - (currentTime inp2 - startTime s1) - cumulativeElapsedTime s1
            = 120000 - (currentTime inp2 - callTime inp)"
        unfolding k by simp
      from loop_Active_CountDown [OF a1 k(2) nz, of inp2] show ?thesis
        unfolding v by blast
    qed
    show ?thesis using m st1 later by blast
  qed
  show ?thesis using lp 1 2 3 4 5 by blast
qed

theorem duration_while_message_buffered_witness:
  "state setup_timer = Inactive \<and>
   message (receive ((no_input 0)\<lparr>arriving := ''2'', btnStart := True\<rparr>) setup_timer) = ''2'' \<and>
   (\<exists>s'. loop ((no_input 0)\<lparr>arriving := ''2'', btnStart := True\<rparr>) setup_timer = Inr s' \<and>
      timerDuration s' = 120000 \<and> timeValue s' = 120000 \<and> cumulativeElapsedTime s' = 0 \<and>
      state s' = Active \<and> mode s' = CountDown \<and>
      (\<exists>s1. loop (no_input 1000) s' = Inr s1 \<and> timeValue s1 = 119000 \<and> state s1 = Active \<and>
         active_passes s' s1 \<and>
         (\<exists>s2. loop (no_input 2000) s1 = Inr s2 \<and> timeValue s2 = 118000)))"
proof -
  let ?inp = "(no_input 0)\<lparr>arriving := ''2'', btnStart := True\<rparr>"
  have h: "state setup_timer = Inactive" "message (receive ?inp setup_timer) = ''2''"
    "\<not> btnLeft ?inp" "\<not> btnRight ?inp"
    by (simp_all add: setup_timer_def receive_def no_input_def)
  have b: "btnStart ?inp" "callTime ?inp = 0" "currentTime (no_input 1000) = 1000"
    "currentTime (no_input 2000) = 2000"
    by (simp_all add: no_input_def)
  from duration_while_message_buffered [OF h] b(1) obtain s' where
    s': "loop ?inp setup_timer = Inr s'" "timerDuration s' = 120000" "timeValue s' = 120000"
      "cumulativeElapsedTime s' = 0" "state s' = Active" "mode s' = CountDown"
    and later: "\<forall>s1 inp2. active_passes s' s1 \<and> state s1 = Active \<longrightarrow>
                 (\<exists>s2. loop inp2 s1 = Inr s2 \<and>
                    timeValue s2 =
                      (if sint (120000 - (currentTime inp2 - callTime ?inp)) \<le> 0 then 0
                       else 120000 - (currentTime inp2 - callTime ?inp)) \<and>
                    state s2 =
                      (if sint (120000 - (currentTime inp2 - callTime ?inp)) \<le> 0
                          \<or> toggle inp2 (receive inp2 s1)
                       then Inactive else Active))"
    by auto
  have e: "s' = projr (loop ?inp setup_timer)" using s'(1) by simp
  have nt: "\<not> toggle (no_input 1000) (receive (no_input 1000) (projr (loop ?inp setup_timer)))"
    by code_simp
  from later active_passes_none [of s'] s'(5) obtain s1 where
    s1: "loop (no_input 1000) s' = Inr s1"
      "timeValue s1 =
         (if sint (120000 - (currentTime (no_input 1000) - callTime ?inp) :: u32) \<le> 0 then 0
          else 120000 - (currentTime (no_input 1000) - callTime ?inp))"
      "state s1 =
         (if sint (120000 - (currentTime (no_input 1000) - callTime ?inp) :: u32) \<le> 0
             \<or> toggle (no_input 1000) (receive (no_input 1000) s')
          then Inactive else Active)"
    by blast
  have tv1: "timeValue s1 = 119000" using s1(2) unfolding b by simp
  have a1: "state s1 = Active" using s1(3) nt unfolding b e by simp
  have ap: "active_passes s' s1"
    using active_passes_more [OF active_passes_none s'(5) s1(1)] .
  from later ap a1 obtain s2 where
    s2: "loop (no_input 2000) s1 = Inr s2"
      "timeValue s2 =
         (if sint (120000 - (currentTime (no_input 2000) - callTime ?inp) :: u32) \<le> 0 then 0
          else 120000 - (currentTime (no_input 2000) - callTime ?inp))"
    by blast
  have tv2: "timeValue s2 = 118000" using s2(2) unfolding b by simp
  show ?thesis using h(1,2) s' s1(1) tv1 a1 ap s2(1) tv2 by blast
qed

text \<open>
  Claim C6, as the spec states it, fails. The bytes \<open>-100\<close> arrive while a count-up runs
  and the timer is then stopped; in the next Inactive pass the duration is
  \<open>60000 * (-100)\<close> converted to \<open>unsigned long\<close>, that is 4288967296, which is not a
  multiple of 60000.
\<close>

theorem negative_message_duration:
  "map_sum id timerDuration
     (run [(no_input 0)\<lparr>arriving := ''-100'', btnStart := True\<rparr>, no_input 20, no_input 40,
           (no_input 60)\<lparr>btnStart := True\<rparr>, no_input 80] setup_timer)
     = Inr 4288967296 \<and>
   map_sum id whole_minutes
     (run [(no_input 0)\<lparr>arriving := ''-100'', btnStart := True\<rparr>, no_input 20, no_input 40,
           (no_input 60)\<lparr>btnStart := True\<rparr>, no_input 80] setup_timer)
     = Inr False"
  by code_simp

text \<open>
  Claim C6, amended. In every state reached by passes in which, whenever the pass starts
  Inactive, the message buffer parses to a number of minutes from 0 to 71581 (so that
  the duration fits 32 bits, also after a press of the increase button), the duration is
  a non-negative multiple of 60000: it is \<open>60000 * k\<close> for a \<open>k\<close> from 0 to 71582. This
  holds whatever the strip shows, so also after the passes whose displayed value, read
  as a \<open>long\<close>, is negative.
\<close>

theorem duration_whole_minutes:
  assumes "reachable_in_range s"
  shows "whole_minutes s \<and>
         (\<exists>k. 0 \<le> k \<and> k \<le> 71582 \<and> uint (timerDuration s) = 60000 * k)"
proof -
  have "\<exists>k. 0 \<le> k \<and> k \<le> 71582 \<and> uint (timerDuration s) = 60000 * k"
    using assms
  proof (induction rule: reachable_in_range.induct)
    case in_range_setup
    show ?case by (intro exI [of _ 0]) (simp add: setup_timer_def)
  next
    case (in_range_pass s inp e timeHue ls)
    from in_range_pass.hyps(3) show ?case
    proof (cases rule: advance_Inr_cases)
      case active
      have "timerDuration (e\<lparr>leds := ls\<rparr>) = timerDuration s"
        using active_branch_kept(1) [OF active(2)] by simp
      then show ?thesis using in_range_pass.IH by simp
    next
      case inactive
      have e: "e = fst (inactive_branch inp (receive inp s))" using inactive(2) by simp
      let ?k = "atol (message (receive inp s))"
      have k: "0 \<le> ?k" "?k \<le> 71581"
        using in_range_pass.hyps(2) inactive(1) by (simp_all add: minutes_in_range_def)
      have "\<exists>k. 0 \<le> k \<and> k \<le> 71582 \<and> uint (timerDuration e) = 60000 * k"
        unfolding e inactive_branch_duration by (rule idle_duration_minutes [OF k])
      then show ?thesis by simp
    qed
  qed
  then obtain k where k: "0 \<le> k" "k \<le> 71582" "uint (timerDuration s) = 60000 * k" by blast
  then have "whole_minutes s" by (simp add: whole_minutes_def)
  with k show ?thesis by blast
qed

theorem duration_whole_minutes_witness:
  "reachable_in_range
     (the (run_in_range [(no_input 0)\<lparr>arriving := ''40000'', btnRight := True\<rparr>,
                         no_input 20, no_input 40, no_input 60, no_input 80] setup_timer)) \<and>
   timerDuration
     (the (run_in_range [(no_input 0)\<lparr>arriving := ''40000'', btnRight := True\<rparr>,
                         no_input 20, no_input 40, no_input 60, no_input 80] setup_timer))
     = 2400000000 \<and>
   whole_minutes
     (the (run_in_range [(no_input 0)\<lparr>arriving := ''40000'', btnRight := True\<rparr>,
                         no_input 20, no_input 40, no_input 60, no_input 80] setup_timer)) \<and>
   (\<exists>k. 0 \<le> k \<and> k \<le> 71582 \<and>
      uint (timerDuration
        (the (run_in_range [(no_input 0)\<lparr>arriving := ''40000'', btnRight := True\<rparr>,
                            no_input 20, no_input 40, no_input 60, no_input 80] setup_timer)))
        = 60000 * k)"
proof -
  let ?ticks = "[(no_input 0)\<lparr>arriving := ''40000'', btnRight := True\<rparr>,
                 no_input 20, no_input 40, no_input 60, no_input 80]"
  have "run_in_range ?ticks setup_timer \<noteq> None" by code_simp
  then have "run_in_range ?ticks setup_timer = Some (the (run_in_range ?ticks setup_timer))"
    by simp
  from run_in_range_reachable [OF in_range_setup this]
  have r: "reachable_in_range (the (run_in_range ?ticks setup_timer))" .
  have d: "timerDuration (the (run_in_range ?ticks setup_timer)) = 2400000000" by code_simp
  from duration_whole_minutes [OF r] r d show ?thesis by blast
qed

end
